theory Spec2Isabelle
  imports Complex_Main "HOL-Library.AList"
begin

section \<open>Data model (src/index.d.ts)\<close>

text \<open>
  A JavaScript \<^verbatim>\<open>number\<close> that holds a coordinate, a speed or an angle is modelled as a
  real number: finite values with exact arithmetic, without rounding. The special values
  \<^verbatim>\<open>NaN\<close> and the infinities are not reals; the tick is given a second time on numbers
  that include them, further down, and agrees with the one on reals wherever the values
  are finite. The tick counter only ever holds 0, 1, 2, ... and is a natural number.
\<close>

record VRVector3D =
  x :: real
  y :: real
  z :: real

record VRObject =
  position :: VRVector3D
  velocity :: VRVector3D
  yaw :: real
  pitch :: real

record Person = VRObject +
  username :: string
  flying :: bool
  color :: string
  shape :: string

text \<open>
  A Person is a JavaScript object: the connection closure and the room's \<^verbatim>\<open>people\<close> map
  hold the same object, and both the event handlers and \<^verbatim>\<open>tick\<close> write to it in place.
  Person objects therefore live in a store, addressed by reference. The two vectors of a
  Person are reachable only through that Person (the default arguments of
  \<^verbatim>\<open>createPerson\<close> are evaluated afresh at every call), so they are kept by value.
\<close>

type_synonym ref = nat
type_synonym heap = "ref \<Rightarrow> Person"

text \<open>
  A JavaScript \<^verbatim>\<open>Map\<close> keeps its entries in insertion order; \<^verbatim>\<open>set\<close> overwrites an
  existing key in place or appends, \<^verbatim>\<open>delete\<close> removes the key. That is an association
  list with \<^const>\<open>AList.update\<close>, \<^const>\<open>AList.delete\<close> and \<^const>\<open>map_of\<close>.
\<close>

section \<open>Room (src/room.ts)\<close>

definition TICK_LENGTH :: real where
  "TICK_LENGTH = 1 / 60"

definition FLOOR_Y :: real where
  "FLOOR_Y = 0"

text \<open>
  The field \<^verbatim>\<open>tickerHandle\<close> is undefined until \<^verbatim>\<open>start\<close> runs. A tick callback is
  a function object; \<^verbatim>\<open>offTick\<close> compares callbacks by identity, so a callback is
  represented by its identity.
\<close>

record Room =
  people :: "(string \<times> ref) list"
  gravity :: real
  tickerHandle :: "nat option"
  serverTime :: nat
  tickCallbacks :: "nat list"

text \<open>\<^verbatim>\<open>constructor(gravity: number = 9.8)\<close>; the field initialisers run first.\<close>

definition new_Room :: "real option \<Rightarrow> Room" where
  "new_Room g =
     \<lparr>people = [],
      gravity = (case g of None \<Rightarrow> 98 / 10 | Some v \<Rightarrow> v),
      tickerHandle = None,
      serverTime = 0,
      tickCallbacks = []\<rparr>"

text \<open>
  The interval timers of the runtime: the handles that are still armed, and the next
  handle \<^verbatim>\<open>setInterval\<close> hands out. \<^verbatim>\<open>clearInterval\<close> of a handle that is not armed,
  or of \<^verbatim>\<open>undefined\<close>, does nothing.
\<close>

record Timers =
  armed :: "nat list"
  fresh :: nat

definition setInterval :: "Timers \<Rightarrow> nat \<times> Timers" where
  "setInterval t = (fresh t, \<lparr>armed = fresh t # armed t, fresh = Suc (fresh t)\<rparr>)"

definition clearInterval :: "nat option \<Rightarrow> Timers \<Rightarrow> Timers" where
  "clearInterval h t =
     (case h of None \<Rightarrow> t | Some k \<Rightarrow> t\<lparr>armed := removeAll k (armed t)\<rparr>)"

definition start :: "Room \<Rightarrow> Timers \<Rightarrow> Room \<times> Timers" where
  "start r t = (let (h, t') = setInterval t in (r\<lparr>tickerHandle := Some h\<rparr>, t'))"

definition stop :: "Room \<Rightarrow> Timers \<Rightarrow> Timers" where
  "stop r t = clearInterval (tickerHandle r) t"

text \<open>First loop body of \<^verbatim>\<open>tick\<close>: gravity acts on a Person that is not flying.\<close>

definition enact_forces :: "real \<Rightarrow> Person \<Rightarrow> Person" where
  "enact_forces g p =
     (if \<not> flying p
      then p\<lparr>velocity := (velocity p)\<lparr>y := y (velocity p) - g * TICK_LENGTH\<rparr>\<rparr>
      else p)"

text \<open>Second loop body, first half: one Euler step of the position.\<close>

definition integrate :: "Person \<Rightarrow> Person" where
  "integrate p =
     p\<lparr>position :=
         \<lparr>x = x (position p) + x (velocity p) * TICK_LENGTH,
          y = y (position p) + y (velocity p) * TICK_LENGTH,
          z = z (position p) + z (velocity p) * TICK_LENGTH\<rparr>\<rparr>"

text \<open>
  Second loop body, second half: the floor check. On reals a height is either below the
  floor or at least the floor; \<open>floor_check_js\<close> is the check on numbers that may be
  \<^verbatim>\<open>NaN\<close>, for which the comparison is false.
\<close>

definition floor_check :: "Person \<Rightarrow> Person" where
  "floor_check p =
     (if y (position p) < FLOOR_Y
      then p\<lparr>velocity := (velocity p)\<lparr>y := 0\<rparr>,
             position := (position p)\<lparr>y := FLOOR_Y\<rparr>\<rparr>
      else p)"

definition enact_velocities :: "Person \<Rightarrow> Person" where
  "enact_velocities p = floor_check (integrate p)"

text \<open>A loop \<^verbatim>\<open>for (let person of Array.from(this.people.values()))\<close> that writes to each
  Person object in turn.\<close>

definition for_people :: "(Person \<Rightarrow> Person) \<Rightarrow> ref list \<Rightarrow> heap \<Rightarrow> heap" where
  "for_people f rs hp = fold (\<lambda>r h. h(r := f (h r))) rs hp"

text \<open>
  \<^verbatim>\<open>tick\<close>: the gravity loop, the velocity loop, then the counter. The callbacks run
  last, when the Persons and the counter have their final values; the one callback this
  repository registers (\<^verbatim>\<open>person-update\<close> in the \<^verbatim>\<open>room\<close> handler) reads the registry
  and emits messages, and writes nothing. What the callbacks emit, and an exception one of
  them raises after the state is final, are not part of the state described here.
\<close>

definition tick :: "Room \<Rightarrow> heap \<Rightarrow> Room \<times> heap" where
  "tick r hp =
     (let hp1 = for_people (enact_forces (gravity r)) (map snd (people r)) hp;
          hp2 = for_people enact_velocities (map snd (people r)) hp1
      in (r\<lparr>serverTime := serverTime r + 1\<rparr>, hp2))"

definition onTick :: "nat \<Rightarrow> Room \<Rightarrow> Room" where
  "onTick callback r = r\<lparr>tickCallbacks := tickCallbacks r @ [callback]\<rparr>"

definition offTick :: "nat \<Rightarrow> Room \<Rightarrow> Room" where
  "offTick callback r =
     r\<lparr>tickCallbacks := filter (\<lambda>callback'. callback' \<noteq> callback) (tickCallbacks r)\<rparr>"


section \<open>Registry and event handlers (src/index.ts)\<close>

text \<open>
  The two entry points under \<^verbatim>\<open>src/index.ts\<close> differ only in the video-grant emission and
  in the spelling of \<^verbatim>\<open>userID\<close>/\<^verbatim>\<open>roomID\<close>; the registry functions and the handlers are
  the same text. Messages emitted to sockets and log lines are not part of the state.
\<close>

datatype error = Error string | TypeError

text \<open>
  The process state the handlers share: the registry \<^verbatim>\<open>rooms\<close>, the Person objects, the
  interval timers, and the next unused object identity.
\<close>

record Server =
  rooms :: "(string \<times> Room) list"
  persons :: heap
  timers :: Timers
  nextRef :: ref

text \<open>\<^verbatim>\<open>createPerson\<close>: every parameter has a default.\<close>

definition createPerson ::
  "string option \<Rightarrow> VRVector3D option \<Rightarrow> VRVector3D option \<Rightarrow> real option \<Rightarrow> real option
     \<Rightarrow> bool option \<Rightarrow> string option \<Rightarrow> string option \<Rightarrow> Person" where
  "createPerson username' position' velocity' yaw' pitch' flying' color' shape' =
     \<lparr>position = (case position' of None \<Rightarrow> \<lparr>x = 0, y = 0, z = 0\<rparr> | Some v \<Rightarrow> v),
      velocity = (case velocity' of None \<Rightarrow> \<lparr>x = 0, y = 0, z = 0\<rparr> | Some v \<Rightarrow> v),
      yaw = (case yaw' of None \<Rightarrow> 0 | Some v \<Rightarrow> v),
      pitch = (case pitch' of None \<Rightarrow> 0 | Some v \<Rightarrow> v),
      username = (case username' of None \<Rightarrow> ''Person'' | Some v \<Rightarrow> v),
      flying = (case flying' of None \<Rightarrow> False | Some v \<Rightarrow> v),
      color = (case color' of None \<Rightarrow> ''#ff7700'' | Some v \<Rightarrow> v),
      shape = (case shape' of None \<Rightarrow> ''cube'' | Some v \<Rightarrow> v)\<rparr>"

text \<open>A new Person object in the store.\<close>

definition new_person :: "Person \<Rightarrow> Server \<Rightarrow> ref \<times> Server" where
  "new_person p s =
     (nextRef s, s\<lparr>persons := (persons s)(nextRef s := p), nextRef := Suc (nextRef s)\<rparr>)"

text \<open>
  \<^verbatim>\<open>addToRoom\<close>. A thrown exception is \<^const>\<open>Inl\<close>, with the state at the moment of the
  throw. The default argument \<^verbatim>\<open>createPerson()\<close> is evaluated on entry when no Person is
  passed.
\<close>

definition addToRoom ::
  "string \<Rightarrow> string \<Rightarrow> ref option \<Rightarrow> Server \<Rightarrow> (error \<times> Server) + Server" where
  "addToRoom roomId userId person' s =
     (let (p, s0) = (case person' of
                       None \<Rightarrow> new_person (createPerson None None None None None None None None) s
                     | Some q \<Rightarrow> (q, s))
      in case map_of (rooms s0) roomId of
           None \<Rightarrow> Inl (Error (''Room does not exist: '' @ roomId), s0)
         | Some r \<Rightarrow>
             Inr (s0\<lparr>rooms :=
                       AList.update roomId (r\<lparr>people := AList.update userId p (people r)\<rparr>)
                         (rooms s0)\<rparr>))"

definition removeRoom :: "string \<Rightarrow> Server \<Rightarrow> Server" where
  "removeRoom roomId s =
     (case map_of (rooms s) roomId of
        None \<Rightarrow> s
      | Some r \<Rightarrow> s\<lparr>timers := stop r (timers s), rooms := AList.delete roomId (rooms s)\<rparr>)"

definition removeFromRoom :: "string \<Rightarrow> string \<Rightarrow> Server \<Rightarrow> Server" where
  "removeFromRoom roomId userId s =
     (case map_of (rooms s) roomId of
        None \<Rightarrow> s
      | Some r \<Rightarrow>
          (let r1 = r\<lparr>people := AList.delete userId (people r)\<rparr>;
               s1 = s\<lparr>rooms := AList.update roomId r1 (rooms s)\<rparr>
           in if length (people r1) = 0 then removeRoom roomId s1 else s1))"

text \<open>
  The variables a connection's handlers close over. \<^verbatim>\<open>person\<close> holds the reference of the
  Person object created when the socket connected.
\<close>

record Conn =
  userID :: string
  roomID :: string
  person :: ref

text \<open>
  \<^verbatim>\<open>io.on("connection")\<close>: the identifier comes from \<^verbatim>\<open>uuidv4()\<close> and is a parameter here.
\<close>

definition on_connection :: "string \<Rightarrow> Server \<Rightarrow> Conn \<times> Server" where
  "on_connection uuid s =
     (let (p, s1) = new_person (createPerson (Some uuid) None None None None None None None) s
      in (\<lparr>userID = uuid, roomID = [], person = p\<rparr>, s1))"

text \<open>
  The \<^verbatim>\<open>room\<close> handler. \<^verbatim>\<open>DEFAULT_GRAVITY\<close> is \<^verbatim>\<open>GRAVITY.EARTH\<close> of the module
  \<^verbatim>\<open>./gravity\<close>, which is not among the sources, and is the parameter \<open>g\<close>. An empty
  string is falsy, so a connection whose \<^verbatim>\<open>roomID\<close> is empty leaves no room. The tick
  callback is a new function object.
\<close>

definition on_room ::
  "real \<Rightarrow> string \<Rightarrow> Conn \<times> Server \<Rightarrow> (error \<times> Conn \<times> Server) + Conn \<times> Server" where
  "on_room g roomID' cs =
     (let (c, s) = cs;
          s1 = (if roomID c \<noteq> [] then removeFromRoom (roomID c) (userID c) s else s);
          c1 = c\<lparr>roomID := roomID'\<rparr>;
          s2 = (if map_of (rooms s1) (roomID c1) = None
                then (let room = new_Room (Some g);
                          room1 = onTick (nextRef s1) room;
                          (room2, t) = start room1 (timers s1)
                      in s1\<lparr>nextRef := Suc (nextRef s1), timers := t,
                            rooms := AList.update (roomID c1) room2 (rooms s1)\<rparr>)
                else s1)
      in case addToRoom (roomID c1) (userID c1) (Some (person c1)) s2 of
           Inl (e, s3) \<Rightarrow> Inl (e, c1, s3)
         | Inr s3 \<Rightarrow> Inr (c1, s3))"

definition on_disconnect :: "Conn \<times> Server \<Rightarrow> Conn \<times> Server" where
  "on_disconnect cs = (let (c, s) = cs in (c, removeFromRoom (roomID c) (userID c) s))"

text \<open>A handler that writes to the connection's own Person object.\<close>

definition on_person :: "(Person \<Rightarrow> Person) \<Rightarrow> Conn \<times> Server \<Rightarrow> Conn \<times> Server" where
  "on_person f cs =
     (let (c, s) = cs in (c, s\<lparr>persons := (persons s)(person c := f (persons s (person c)))\<rparr>))"

definition set_flying :: "bool \<Rightarrow> Person \<Rightarrow> Person" where
  "set_flying b p = p\<lparr>flying := b\<rparr>"

text \<open>\<^verbatim>\<open>jump\<close>: the speed defaults to 2.\<close>

definition jump :: "real option \<Rightarrow> Person \<Rightarrow> Person" where
  "jump speed p =
     p\<lparr>velocity := (velocity p)\<lparr>y := (case speed of None \<Rightarrow> 2 | Some v \<Rightarrow> v)\<rparr>\<rparr>"

definition fly :: "real \<Rightarrow> Person \<Rightarrow> Person" where
  "fly magnitude p = p\<lparr>position := (position p)\<lparr>y := y (position p) + magnitude\<rparr>\<rparr>"

definition set_color :: "string \<Rightarrow> Person \<Rightarrow> Person" where
  "set_color c p = p\<lparr>color := c\<rparr>"

definition set_shape :: "string \<Rightarrow> Person \<Rightarrow> Person" where
  "set_shape c p = p\<lparr>shape := c\<rparr>"

definition move_forwards_backwards :: "real \<Rightarrow> Person \<Rightarrow> Person" where
  "move_forwards_backwards magnitude p =
     (let p1 = p\<lparr>position := (position p)\<lparr>z := z (position p) + magnitude * cos (yaw p)\<rparr>\<rparr>
      in p1\<lparr>position := (position p1)\<lparr>x := x (position p1) - magnitude * sin (yaw p1)\<rparr>\<rparr>)"

definition move_right_left :: "real \<Rightarrow> Person \<Rightarrow> Person" where
  "move_right_left magnitude p =
     (let p1 = p\<lparr>position := (position p)\<lparr>z := z (position p) + magnitude * sin (yaw p)\<rparr>\<rparr>
      in p1\<lparr>position := (position p1)\<lparr>x := x (position p1) + magnitude * cos (yaw p1)\<rparr>\<rparr>)"

text \<open>
  The remainder operator \<^verbatim>\<open>%\<close> on numbers: the quotient is truncated towards zero, so the
  result has the sign of the dividend. The divisor is never zero where it is used.
\<close>

definition js_rem :: "real \<Rightarrow> real \<Rightarrow> real" where
  "js_rem a b = a - b * of_int (if 0 \<le> a / b then \<lfloor>a / b\<rfloor> else \<lceil>a / b\<rceil>)"

definition rotate_counterclockwise :: "real \<Rightarrow> Person \<Rightarrow> Person" where
  "rotate_counterclockwise radians p =
     (let p1 = p\<lparr>yaw := yaw p + radians\<rparr>
      in if yaw p1 > pi * 2 then p1\<lparr>yaw := js_rem (yaw p1) pi * 2\<rparr> else p1)"

definition set_yaw :: "real \<Rightarrow> Person \<Rightarrow> Person" where
  "set_yaw v p = p\<lparr>yaw := v\<rparr>"

definition set_pitch :: "real \<Rightarrow> Person \<Rightarrow> Person" where
  "set_pitch v p = p\<lparr>pitch := v\<rparr>"

text \<open>
  \<^verbatim>\<open>rooms[roomID]\<close> in the \<^verbatim>\<open>username\<close> handler is a property access on the Map object,
  not \<^verbatim>\<open>rooms.get(roomID)\<close>. Entries stored with \<^verbatim>\<open>rooms.set\<close> are not properties; nothing
  in the source assigns a property to \<^verbatim>\<open>rooms\<close>, and what the object inherits
  (\<^verbatim>\<open>get\<close>, \<^verbatim>\<open>set\<close>, \<^verbatim>\<open>size\<close>, ...) are functions and numbers, none of them an object
  with a \<^verbatim>\<open>people\<close> map. So for every key the access yields no Room, and the chain
  \<^verbatim>\<open>.people.get(userID)\<close> throws a TypeError.
\<close>

definition rooms_property :: "(string \<times> Room) list \<Rightarrow> string \<Rightarrow> Room option" where
  "rooms_property rs key = None"

definition on_username ::
  "string \<Rightarrow> Conn \<times> Server \<Rightarrow> (error \<times> Conn \<times> Server) + Conn \<times> Server" where
  "on_username name cs =
     (let (c, s) = cs
      in if roomID c \<noteq> []
         then (case rooms_property (rooms s) (roomID c) of
                 None \<Rightarrow> Inl (TypeError, c, s)
               | Some room \<Rightarrow>
                   (case map_of (people room) (userID c) of
                      None \<Rightarrow> Inl (TypeError, c, s)
                    | Some p \<Rightarrow>
                        Inr (c, s\<lparr>persons := (persons s)(p := (persons s p)\<lparr>username := name\<rparr>)\<rparr>)))
         else Inr (c, s))"


section \<open>The running server\<close>

text \<open>
  What arrives at the process: a new socket, a message on a socket, or an interval timer
  that has come due. The socket identifier names the closure the handlers were created in.
\<close>

datatype message =
    JoinRoom string
  | Disconnect
  | SetFlying bool
  | Jump "real option"
  | Fly real
  | Color string
  | Shape string
  | MoveForwardsBackwards real
  | MoveRightLeft real
  | RotateCounterclockwise real
  | SetYaw real
  | SetPitch real
  | Username string

datatype event = Connection nat string | Message nat message | Interval nat

record System =
  server :: Server
  conns :: "nat \<rightharpoonup> Conn"

fun handle ::
  "real \<Rightarrow> message \<Rightarrow> Conn \<times> Server \<Rightarrow> (error \<times> Conn \<times> Server) + Conn \<times> Server" where
  "handle g (JoinRoom roomID') cs = on_room g roomID' cs"
| "handle g Disconnect cs = Inr (on_disconnect cs)"
| "handle g (SetFlying b) cs = Inr (on_person (set_flying b) cs)"
| "handle g (Jump speed) cs = Inr (on_person (jump speed) cs)"
| "handle g (Fly magnitude) cs = Inr (on_person (fly magnitude) cs)"
| "handle g (Color c) cs = Inr (on_person (set_color c) cs)"
| "handle g (Shape c) cs = Inr (on_person (set_shape c) cs)"
| "handle g (MoveForwardsBackwards magnitude) cs =
     Inr (on_person (move_forwards_backwards magnitude) cs)"
| "handle g (MoveRightLeft magnitude) cs = Inr (on_person (move_right_left magnitude) cs)"
| "handle g (RotateCounterclockwise radians) cs =
     Inr (on_person (rotate_counterclockwise radians) cs)"
| "handle g (SetYaw v) cs = Inr (on_person (set_yaw v) cs)"
| "handle g (SetPitch v) cs = Inr (on_person (set_pitch v) cs)"
| "handle g (Username name) cs = on_username name cs"

text \<open>
  An interval that comes due calls \<^verbatim>\<open>tick\<close> on the Room object that armed it. A Room
  object is put in the registry by the handler that starts it and taken out by the call
  that stops it, so the object is found there by its handle.
\<close>

fun interval_due :: "nat \<Rightarrow> (string \<times> Room) list \<Rightarrow> heap \<Rightarrow> (string \<times> Room) list \<times> heap" where
  "interval_due h [] hp = ([], hp)"
| "interval_due h ((k, r) # rs) hp =
     (if tickerHandle r = Some h
      then (let (r', hp1) = tick r hp; (rs', hp2) = interval_due h rs hp1
            in ((k, r') # rs', hp2))
      else (let (rs', hp1) = interval_due h rs hp in ((k, r) # rs', hp1)))"

text \<open>
  One event. A socket identifier names one connection for as long as it is open, and a
  socket that has disconnected receives nothing more. An exception that leaves a handler
  is the result \<^const>\<open>Inl\<close>. Since the callbacks of a tick are taken not to raise, this
  relation allows every run of the process and possibly more.
\<close>

fun step :: "real \<Rightarrow> event \<Rightarrow> System \<Rightarrow> (error \<times> System) + System" where
  "step g (Connection sock uuid) S =
     (case conns S sock of
        Some c \<Rightarrow> Inr S
      | None \<Rightarrow>
          (let (c, s1) = on_connection uuid (server S)
           in Inr \<lparr>server = s1, conns = (conns S)(sock \<mapsto> c)\<rparr>))"
| "step g (Message sock m) S =
     (case conns S sock of
        None \<Rightarrow> Inr S
      | Some c \<Rightarrow>
          (case handle g m (c, server S) of
             Inl (e, c1, s1) \<Rightarrow> Inl (e, \<lparr>server = s1, conns = (conns S)(sock \<mapsto> c1)\<rparr>)
           | Inr (c1, s1) \<Rightarrow>
               Inr \<lparr>server = s1,
                    conns = (if m = Disconnect then (conns S)(sock := None)
                             else (conns S)(sock \<mapsto> c1))\<rparr>))"
| "step g (Interval h) S =
     (if h \<in> set (armed (timers (server S)))
      then (let (rs, hp) = interval_due h (rooms (server S)) (persons (server S))
            in Inr (S\<lparr>server := (server S)\<lparr>rooms := rs, persons := hp\<rparr>\<rparr>))
      else Inr S)"

text \<open>A sequence of events; the first uncaught exception ends the run.\<close>

fun run :: "real \<Rightarrow> event list \<Rightarrow> System \<Rightarrow> (error \<times> System) + System" where
  "run g [] S = Inr S"
| "run g (e # es) S = (case step g e S of Inl err \<Rightarrow> Inl err | Inr S1 \<Rightarrow> run g es S1)"

text \<open>The process at start-up: an empty registry, no socket, no timer.\<close>

definition initial :: System where
  "initial =
     \<lparr>server = \<lparr>rooms = [], persons = (\<lambda>_. createPerson None None None None None None None None),
                 timers = \<lparr>armed = [], fresh = 0\<rparr>, nextRef = 0\<rparr>,
      conns = Map.empty\<rparr>"

section \<open>Sequences of ticks and of Room operations\<close>

text \<open>\<open>n\<close> consecutive ticks of one Room with nothing in between.\<close>

fun ticks :: "nat \<Rightarrow> Room \<Rightarrow> heap \<Rightarrow> Room \<times> heap" where
  "ticks 0 r hp = (r, hp)"
| "ticks (Suc n) r hp = (let (r1, hp1) = tick r hp in ticks n r1 hp1)"

text \<open>
  Everything the program does to a Room object: the methods of the class, and the two
  writes to \<^verbatim>\<open>people\<close> made by \<^verbatim>\<open>addToRoom\<close> and \<^verbatim>\<open>removeFromRoom\<close>.
\<close>

datatype room_op =
    Start | Stop | Tick | OnTick nat | OffTick nat | PeopleSet string ref | PeopleDelete string

fun apply_op :: "room_op \<Rightarrow> Room \<times> heap \<times> Timers \<Rightarrow> Room \<times> heap \<times> Timers" where
  "apply_op Start (r, hp, t) = (let (r1, t1) = start r t in (r1, hp, t1))"
| "apply_op Stop (r, hp, t) = (r, hp, stop r t)"
| "apply_op Tick (r, hp, t) = (let (r1, hp1) = tick r hp in (r1, hp1, t))"
| "apply_op (OnTick c) (r, hp, t) = (onTick c r, hp, t)"
| "apply_op (OffTick c) (r, hp, t) = (offTick c r, hp, t)"
| "apply_op (PeopleSet u p) (r, hp, t) = (r\<lparr>people := AList.update u p (people r)\<rparr>, hp, t)"
| "apply_op (PeopleDelete u) (r, hp, t) = (r\<lparr>people := AList.delete u (people r)\<rparr>, hp, t)"

definition room_ops :: "room_op list \<Rightarrow> Room \<times> heap \<times> Timers \<Rightarrow> Room \<times> heap \<times> Timers" where
  "room_ops ops st = fold apply_op ops st"


section \<open>The tick on numbers with their special values\<close>

text \<open>
  A JavaScript \<^verbatim>\<open>number\<close> is a finite value, one of the two infinities, or \<^verbatim>\<open>NaN\<close>.
  The operations below follow the rules of the language for the special values; on finite
  operands they are the exact operations of the reals (no rounding, no overflow, and the
  two zeros are one). Every comparison with \<^verbatim>\<open>NaN\<close> is false.
\<close>

datatype number = Num real | PosInfinity | NegInfinity | NaN

fun isFinite :: "number \<Rightarrow> bool" where
  "isFinite (Num a) = True"
| "isFinite v = False"

fun js_neg :: "number \<Rightarrow> number" where
  "js_neg (Num a) = Num (- a)"
| "js_neg PosInfinity = NegInfinity"
| "js_neg NegInfinity = PosInfinity"
| "js_neg NaN = NaN"

fun js_add :: "number \<Rightarrow> number \<Rightarrow> number" where
  "js_add NaN b = NaN"
| "js_add a NaN = NaN"
| "js_add (Num a) (Num b) = Num (a + b)"
| "js_add PosInfinity NegInfinity = NaN"
| "js_add NegInfinity PosInfinity = NaN"
| "js_add PosInfinity b = PosInfinity"
| "js_add a PosInfinity = PosInfinity"
| "js_add NegInfinity b = NegInfinity"
| "js_add a NegInfinity = NegInfinity"

text \<open>\<^verbatim>\<open>a - b\<close> is \<^verbatim>\<open>a + (-b)\<close>.\<close>

definition js_sub :: "number \<Rightarrow> number \<Rightarrow> number" where
  "js_sub a b = js_add a (js_neg b)"

text \<open>
  A product with an infinite factor is \<^verbatim>\<open>NaN\<close> when the other factor is zero, and
  otherwise the infinity with the product of the signs.
\<close>

fun js_sign :: "number \<Rightarrow> real" where
  "js_sign (Num a) = sgn a"
| "js_sign PosInfinity = 1"
| "js_sign NegInfinity = - 1"
| "js_sign NaN = 0"

fun js_mul :: "number \<Rightarrow> number \<Rightarrow> number" where
  "js_mul NaN b = NaN"
| "js_mul a NaN = NaN"
| "js_mul (Num a) (Num b) = Num (a * b)"
| "js_mul a b =
     (if js_sign a * js_sign b = 0 then NaN
      else if 0 < js_sign a * js_sign b then PosInfinity else NegInfinity)"

fun js_lt :: "number \<Rightarrow> number \<Rightarrow> bool" where
  "js_lt NaN b = False"
| "js_lt a NaN = False"
| "js_lt (Num a) (Num b) = (a < b)"
| "js_lt a NegInfinity = False"
| "js_lt PosInfinity b = False"
| "js_lt NegInfinity b = True"
| "js_lt a PosInfinity = True"

text \<open>\<^verbatim>\<open>a <= b\<close>, which is what "\<open>b\<close> is at least \<open>a\<close>" means for numbers.\<close>

definition js_le :: "number \<Rightarrow> number \<Rightarrow> bool" where
  "js_le a b \<longleftrightarrow> js_lt a b \<or> (a = b \<and> a \<noteq> NaN)"

text \<open>An argument that was not passed is \<^verbatim>\<open>undefined\<close>, which arithmetic reads as \<^verbatim>\<open>NaN\<close>.\<close>

definition to_number :: "number option \<Rightarrow> number" where
  "to_number v = (case v of None \<Rightarrow> NaN | Some a \<Rightarrow> a)"

text \<open>The interfaces of \<^verbatim>\<open>index.d.ts\<close> once more, with these numbers in the fields.\<close>

record VRVector3D_js =
  x_js :: number
  y_js :: number
  z_js :: number

record VRObject_js =
  position_js :: VRVector3D_js
  velocity_js :: VRVector3D_js
  yaw_js :: number
  pitch_js :: number

record Person_js = VRObject_js +
  username_js :: string
  flying_js :: bool
  color_js :: string
  shape_js :: string

type_synonym heap_js = "ref \<Rightarrow> Person_js"

text \<open>A Person with finite fields, as a Person on numbers.\<close>

definition js_Vector :: "VRVector3D \<Rightarrow> VRVector3D_js" where
  "js_Vector v = \<lparr>x_js = Num (x v), y_js = Num (y v), z_js = Num (z v)\<rparr>"

definition js_Person :: "Person \<Rightarrow> Person_js" where
  "js_Person p =
     \<lparr>position_js = js_Vector (position p), velocity_js = js_Vector (velocity p),
      yaw_js = Num (yaw p), pitch_js = Num (pitch p),
      username_js = username p, flying_js = flying p, color_js = color p, shape_js = shape p\<rparr>"

text \<open>
  The two loop bodies of \<^verbatim>\<open>tick\<close> and \<^verbatim>\<open>tick\<close> itself (src/room.ts), line by line as
  above, with the operations of numbers. The gravity of a Room is the constant it was
  constructed with, and finite.
\<close>

definition enact_forces_js :: "number \<Rightarrow> Person_js \<Rightarrow> Person_js" where
  "enact_forces_js g p =
     (if \<not> flying_js p
      then p\<lparr>velocity_js := (velocity_js p)
               \<lparr>y_js := js_sub (y_js (velocity_js p)) (js_mul g (Num TICK_LENGTH))\<rparr>\<rparr>
      else p)"

definition integrate_js :: "Person_js \<Rightarrow> Person_js" where
  "integrate_js p =
     p\<lparr>position_js :=
         \<lparr>x_js = js_add (x_js (position_js p)) (js_mul (x_js (velocity_js p)) (Num TICK_LENGTH)),
          y_js = js_add (y_js (position_js p)) (js_mul (y_js (velocity_js p)) (Num TICK_LENGTH)),
          z_js = js_add (z_js (position_js p)) (js_mul (z_js (velocity_js p)) (Num TICK_LENGTH))\<rparr>\<rparr>"

definition floor_check_js :: "Person_js \<Rightarrow> Person_js" where
  "floor_check_js p =
     (if js_lt (y_js (position_js p)) (Num FLOOR_Y)
      then p\<lparr>velocity_js := (velocity_js p)\<lparr>y_js := Num 0\<rparr>,
             position_js := (position_js p)\<lparr>y_js := Num FLOOR_Y\<rparr>\<rparr>
      else p)"

definition enact_velocities_js :: "Person_js \<Rightarrow> Person_js" where
  "enact_velocities_js p = floor_check_js (integrate_js p)"

definition for_people_js :: "(Person_js \<Rightarrow> Person_js) \<Rightarrow> ref list \<Rightarrow> heap_js \<Rightarrow> heap_js" where
  "for_people_js f rs hp = fold (\<lambda>r h. h(r := f (h r))) rs hp"

definition tick_js :: "Room \<Rightarrow> heap_js \<Rightarrow> Room \<times> heap_js" where
  "tick_js r hp =
     (let hp1 = for_people_js (enact_forces_js (Num (gravity r))) (map snd (people r)) hp;
          hp2 = for_people_js enact_velocities_js (map snd (people r)) hp1
      in (r\<lparr>serverTime := serverTime r + 1\<rparr>, hp2))"

text \<open>
  The \<^verbatim>\<open>fly\<close> handler (src/index.ts), whose argument may be missing:
  \<^verbatim>\<open>person.position.y += magnitude\<close>.
\<close>

definition fly_js :: "number option \<Rightarrow> Person_js \<Rightarrow> Person_js" where
  "fly_js magnitude p =
     p\<lparr>position_js := (position_js p)
          \<lparr>y_js := js_add (y_js (position_js p)) (to_number magnitude)\<rparr>\<rparr>"

text \<open>
  The vertical position and speed of a Person are finite: a property both loop bodies
  keep, since the gravity of a Room and the tick length are finite.
\<close>

definition finite_height :: "Person_js \<Rightarrow> bool" where
  "finite_height p \<longleftrightarrow> isFinite (y_js (position_js p)) \<and> isFinite (y_js (velocity_js p))"

section \<open>Invariants of the running server\<close>

text \<open>
  A handle that was handed out and is no longer armed: its interval has been cleared.
\<close>

definition cleared :: "nat \<Rightarrow> Timers \<Rightarrow> bool" where
  "cleared h t \<longleftrightarrow> h < fresh t \<and> h \<notin> set (armed t)"

text \<open>
  What holds of the registry between two events: the keys of the Map are distinct; every
  registered room has an occupant and an armed interval of its own.
\<close>

definition registry_ok :: "Server \<Rightarrow> bool" where
  "registry_ok s \<longleftrightarrow>
     distinct (map fst (rooms s)) \<and>
     (\<forall>k r. (k, r) \<in> set (rooms s) \<longrightarrow>
        people r \<noteq> [] \<and>
        (\<exists>h. tickerHandle r = Some h \<and> h \<in> set (armed (timers s)) \<and> h < fresh (timers s))) \<and>
     (\<forall>k r k' r'. (k, r) \<in> set (rooms s) \<longrightarrow> (k', r') \<in> set (rooms s) \<longrightarrow>
        tickerHandle r = tickerHandle r' \<longrightarrow> k = k')"


text \<open>
  What holds of the occupants between two events: the keys of every \<^verbatim>\<open>people\<close> map are
  distinct, and every Person object was created for one user id (its owner), under which
  alone it is ever stored.
\<close>

definition people_ok :: "System \<Rightarrow> bool" where
  "people_ok S \<longleftrightarrow>
     (\<forall>k r. (k, r) \<in> set (rooms (server S)) \<longrightarrow> distinct (map fst (people r))) \<and>
     (\<exists>owner.
        (\<forall>k r u p. (k, r) \<in> set (rooms (server S)) \<longrightarrow> (u, p) \<in> set (people r) \<longrightarrow>
           owner p = u \<and> p < nextRef (server S)) \<and>
        (\<forall>sock c. conns S sock = Some c \<longrightarrow>
           owner (person c) = userID c \<and> person c < nextRef (server S)))"

text \<open>
  How the \<^verbatim>\<open>people\<close> of a room after an event relate to those before it: entries are
  removed, or the entries \<open>new\<close> are stored.
\<close>

definition from_room :: "(string \<times> ref) list \<Rightarrow> Room \<Rightarrow> Room \<Rightarrow> bool" where
  "from_room new r r' \<longleftrightarrow>
     set (people r') \<subseteq> set new \<union> set (people r) \<and>
     (distinct (map fst (people r)) \<longrightarrow> distinct (map fst (people r')))"

section \<open>Example states\<close>

text \<open>
  A room with three occupants: a Person standing on the floor, one flying at height 100
  and one falling from height 100.
\<close>

definition example_room :: Room where
  "example_room =
     \<lparr>people = [(''u'', 0), (''v'', 1), (''w'', 3)], gravity = 98 / 10, tickerHandle = Some 0,
      serverTime = 0, tickCallbacks = [2]\<rparr>"

definition example_heap :: heap where
  "example_heap =
     (\<lambda>_. createPerson None None None None None None None None)
       (0 := createPerson (Some ''u'') None None None None None None None,
        1 := createPerson (Some ''v'') (Some \<lparr>x = 0, y = 100, z = 0\<rparr>) None None None
               (Some True) None None,
        3 := createPerson (Some ''w'') (Some \<lparr>x = 0, y = 100, z = 0\<rparr>) None None None
               None None None)"

text \<open>
  The same Persons as numbers, after the first one's socket has sent \<^verbatim>\<open>fly\<close> with no
  argument.
\<close>

definition example_heap_js :: heap_js where
  "example_heap_js =
     (\<lambda>a. js_Person (example_heap a))(0 := fly_js None (js_Person (example_heap 0)))"

definition example_server :: Server where
  "example_server =
     \<lparr>rooms = [(''A'', example_room)], persons = example_heap,
      timers = \<lparr>armed = [0], fresh = 1\<rparr>, nextRef = 4\<rparr>"

definition example_conn :: Conn where
  "example_conn = \<lparr>userID = ''u'', roomID = ''A'', person = 0\<rparr>"

text \<open>The server after one socket has connected and joined room A.\<close>

definition joined_room :: Room where
  "joined_room =
     \<lparr>people = [(''u'', 0)], gravity = 98 / 10, tickerHandle = Some 0,
      serverTime = 0, tickCallbacks = [1]\<rparr>"

definition joined :: System where
  "joined =
     \<lparr>server =
        \<lparr>rooms = [(''A'', joined_room)],
         persons = (\<lambda>_. createPerson None None None None None None None None)
                     (0 := createPerson (Some ''u'') None None None None None None None),
         timers = \<lparr>armed = [0], fresh = 1\<rparr>,
         nextRef = 2\<rparr>,
      conns = [0 \<mapsto> \<lparr>userID = ''u'', roomID = ''A'', person = 0\<rparr>]\<rparr>"

section \<open>One tick\<close>

text \<open>
  A loop over the values of \<^verbatim>\<open>people\<close> applies its body to a Person object once for
  every time the object occurs among the values.
\<close>

lemma for_people_funpow:
  "for_people f rs hp a = (f ^^ count_list rs a) (hp a)"
proof (induction rs arbitrary: hp)
  case Nil
  show ?case by (simp add: for_people_def)
next
  case (Cons b rs)
  have step: "for_people f (b # rs) hp = for_people f rs (hp(b := f (hp b)))"
    by (simp add: for_people_def)
  show ?case
    unfolding step Cons.IH
    by (simp add: funpow_swap1)
qed

lemma funpow_preserves:
  assumes "\<And>q. sel (f q) = sel q"
  shows "sel ((f ^^ k) q) = sel q"
  by (induction k) (simp_all add: assms)

lemma funpow_establishes:
  assumes "0 < k" and "Q (f q)" and "\<And>q'. Q q' \<Longrightarrow> Q (f q')"
  shows "Q ((f ^^ k) q)"
proof -
  obtain j where k: "k = Suc j" using assms(1) by (cases k) auto
  have "Q ((f ^^ j) (f q))"
    by (induction j) (simp_all add: assms)
  then show ?thesis by (simp add: k funpow_swap1)
qed

lemma count_list_pos: "a \<in> set rs \<Longrightarrow> 0 < count_list rs a"
  by (induction rs) auto

lemma tick_fst: "fst (tick r hp) = r\<lparr>serverTime := serverTime r + 1\<rparr>"
  by (simp add: tick_def Let_def)

lemma tick_snd:
  "snd (tick r hp) a =
     (enact_velocities ^^ count_list (map snd (people r)) a)
       ((enact_forces (gravity r) ^^ count_list (map snd (people r)) a) (hp a))"
  by (simp add: tick_def Let_def for_people_funpow)


text \<open>
  C9. One tick changes, of a Person, at most \<^verbatim>\<open>position.x\<close>, \<^verbatim>\<open>position.y\<close>,
  \<^verbatim>\<open>position.z\<close> and \<^verbatim>\<open>velocity.y\<close>: \<^verbatim>\<open>velocity.x\<close>, \<^verbatim>\<open>velocity.z\<close>, \<^verbatim>\<open>yaw\<close>,
  \<^verbatim>\<open>pitch\<close>, \<^verbatim>\<open>username\<close>, \<^verbatim>\<open>flying\<close>, \<^verbatim>\<open>color\<close> and \<^verbatim>\<open>shape\<close> of every Person
  object are as before, and so are the room's occupant ids (the whole \<^verbatim>\<open>people\<close> map)
  and its gravity.
\<close>

theorem tick_frame:
  "map fst (people (fst (tick r hp))) = map fst (people r) \<and>
   people (fst (tick r hp)) = people r \<and>
   gravity (fst (tick r hp)) = gravity r \<and>
   (\<forall>p. x (velocity (snd (tick r hp) p)) = x (velocity (hp p)) \<and>
        z (velocity (snd (tick r hp) p)) = z (velocity (hp p)) \<and>
        yaw (snd (tick r hp) p) = yaw (hp p) \<and>
        pitch (snd (tick r hp) p) = pitch (hp p) \<and>
        username (snd (tick r hp) p) = username (hp p) \<and>
        flying (snd (tick r hp) p) = flying (hp p) \<and>
        color (snd (tick r hp) p) = color (hp p) \<and>
        shape (snd (tick r hp) p) = shape (hp p))"
proof -
  have ev: "sel (snd (tick r hp) p) = sel (hp p)"
    if "\<And>q. sel (enact_velocities q) = sel q" "\<And>q. sel (enact_forces (gravity r) q) = sel q"
    for sel :: "Person \<Rightarrow> 'a" and p
    unfolding tick_snd using that by (simp add: funpow_preserves)
  show ?thesis
    by (intro conjI allI ev)
       (simp_all add: tick_fst enact_velocities_def floor_check_def integrate_def enact_forces_def)
qed

section \<open>One tick on numbers with their special values\<close>

lemma for_people_js_funpow:
  "for_people_js f rs hp a = (f ^^ count_list rs a) (hp a)"
proof (induction rs arbitrary: hp)
  case Nil
  show ?case by (simp add: for_people_js_def)
next
  case (Cons b rs)
  have step: "for_people_js f (b # rs) hp = for_people_js f rs (hp(b := f (hp b)))"
    by (simp add: for_people_js_def)
  show ?case
    unfolding step Cons.IH
    by (simp add: funpow_swap1)
qed

lemma tick_js_snd:
  "snd (tick_js r hp) a =
     (enact_velocities_js ^^ count_list (map snd (people r)) a)
       ((enact_forces_js (Num (gravity r)) ^^ count_list (map snd (people r)) a) (hp a))"
  by (simp add: tick_js_def Let_def for_people_js_funpow)

text \<open>On finite values the loop bodies on numbers are those on reals.\<close>

lemma enact_forces_js_embed:
  "enact_forces_js (Num g) (js_Person p) = js_Person (enact_forces g p)"
  by (simp add: enact_forces_js_def enact_forces_def js_Person_def js_Vector_def js_sub_def)

lemma enact_velocities_js_embed:
  "enact_velocities_js (js_Person p) = js_Person (enact_velocities p)"
  by (simp add: enact_velocities_js_def enact_velocities_def floor_check_js_def floor_check_def
        integrate_js_def integrate_def js_Person_def js_Vector_def)

lemma funpow_embed:
  assumes "\<And>q. f' (e q) = e (f q)"
  shows "(f' ^^ k) (e q) = e ((f ^^ k) q)"
  by (induction k) (simp_all add: assms)

text \<open>On finite values the tick on numbers is the tick on reals.\<close>

lemma tick_js_embed:
  "fst (tick_js r (\<lambda>a. js_Person (hp a))) = fst (tick r hp) \<and>
   snd (tick_js r (\<lambda>a. js_Person (hp a))) a = js_Person (snd (tick r hp) a)"
proof
  show "fst (tick_js r (\<lambda>a. js_Person (hp a))) = fst (tick r hp)"
    by (simp add: tick_js_def tick_def Let_def)
  let ?k = "count_list (map snd (people r)) a"
  have "snd (tick_js r (\<lambda>a. js_Person (hp a))) a
      = (enact_velocities_js ^^ ?k) ((enact_forces_js (Num (gravity r)) ^^ ?k) (js_Person (hp a)))"
    by (rule tick_js_snd)
  also have "\<dots> = (enact_velocities_js ^^ ?k) (js_Person ((enact_forces (gravity r) ^^ ?k) (hp a)))"
    by (simp only: funpow_embed [of "enact_forces_js (Num (gravity r))" js_Person,
          OF enact_forces_js_embed])
  also have "\<dots> = js_Person ((enact_velocities ^^ ?k) ((enact_forces (gravity r) ^^ ?k) (hp a)))"
    by (simp only: funpow_embed [of enact_velocities_js js_Person,
          OF enact_velocities_js_embed])
  also have "\<dots> = js_Person (snd (tick r hp) a)"
    by (simp only: tick_snd)
  finally show "snd (tick_js r (\<lambda>a. js_Person (hp a))) a = js_Person (snd (tick r hp) a)" .
qed

lemma fly_js_embed: "fly_js (Some (Num m)) (js_Person p) = js_Person (fly m p)"
  by (simp add: fly_js_def fly_def js_Person_def js_Vector_def to_number_def)


lemma isFinite_Num: "isFinite a \<Longrightarrow> \<exists>v. a = Num v"
  by (cases a) simp_all

lemma enact_forces_js_finite: "finite_height q \<Longrightarrow> finite_height (enact_forces_js (Num g) q)"
  by (auto simp: finite_height_def enact_forces_js_def js_sub_def dest!: isFinite_Num)

lemma floor_check_js_settled:
  assumes "y_js (velocity_js q) = Num 0" and "y_js (position_js q) = Num FLOOR_Y"
  shows "y_js (velocity_js (enact_velocities_js q)) = Num 0 \<and>
         y_js (position_js (enact_velocities_js q)) = Num FLOOR_Y"
  using assms
  by (simp add: enact_velocities_js_def floor_check_js_def integrate_js_def FLOOR_Y_def)

text \<open>
  One pass of the second loop body on a Person whose integrated height is not \<^verbatim>\<open>NaN\<close>
  leaves it at the floor or above, and in a state where the next pass does not produce
  \<^verbatim>\<open>NaN\<close> either.
\<close>

lemma enact_velocities_js_floor:
  assumes "y_js (position_js (integrate_js q)) \<noteq> NaN"
  shows "js_le (Num FLOOR_Y) (y_js (position_js (enact_velocities_js q))) \<and>
         y_js (position_js (integrate_js (enact_velocities_js q))) \<noteq> NaN"
  using assms
  by (cases "y_js (position_js q)"; cases "y_js (velocity_js q)")
     (auto simp: enact_velocities_js_def floor_check_js_def integrate_js_def js_le_def
        TICK_LENGTH_def FLOOR_Y_def sgn_if split: if_splits)

lemma integrate_js_finite:
  "finite_height q \<Longrightarrow> y_js (position_js (integrate_js q)) \<noteq> NaN"
  by (auto simp: finite_height_def integrate_js_def dest!: isFinite_Num)

text \<open>
  C1. After a tick, \<^verbatim>\<open>position.y\<close> of a Person in the room is at least the floor constant
  0 whenever the position after integration is not \<^verbatim>\<open>NaN\<close>, and so whenever the Person's
  \<^verbatim>\<open>position.y\<close> and \<^verbatim>\<open>velocity.y\<close> were finite when the tick began; and if the
  position after integration was below 0 (the floor check fired), the Person's
  \<^verbatim>\<open>velocity.y\<close> is 0 after that tick. The position after integration is that of the Person
  as the gravity loop left it, moved by one Euler step. For a Person whose height is
  \<^verbatim>\<open>NaN\<close> the comparison of the floor check is false, the height stays \<^verbatim>\<open>NaN\<close>, and it
  is not at least 0, as the last theorem of this section shows.
\<close>

theorem tick_js_floor:
  assumes "(u, p) \<in> set (people r)"
  shows "(y_js (position_js (integrate_js
              (for_people_js (enact_forces_js (Num (gravity r))) (map snd (people r)) hp p)))
            \<noteq> NaN
          \<longrightarrow> js_le (Num FLOOR_Y) (y_js (position_js (snd (tick_js r hp) p)))) \<and>
         (isFinite (y_js (position_js (hp p))) \<and> isFinite (y_js (velocity_js (hp p)))
          \<longrightarrow> js_le (Num FLOOR_Y) (y_js (position_js (snd (tick_js r hp) p)))) \<and>
         (js_lt (y_js (position_js (integrate_js
              (for_people_js (enact_forces_js (Num (gravity r))) (map snd (people r)) hp p))))
            (Num FLOOR_Y)
          \<longrightarrow> y_js (velocity_js (snd (tick_js r hp) p)) = Num 0)"
proof -
  let ?rs = "map snd (people r)"
  let ?k = "count_list ?rs p"
  let ?hp1 = "for_people_js (enact_forces_js (Num (gravity r))) ?rs hp"
  have "p \<in> set ?rs" using assms by force
  then have pos: "0 < ?k" by (rule count_list_pos)
  have snd_eq: "snd (tick_js r hp) p = (enact_velocities_js ^^ ?k) (?hp1 p)"
    by (simp add: tick_js_def Let_def for_people_js_funpow)
  have floor: "js_le (Num FLOOR_Y) (y_js (position_js (snd (tick_js r hp) p)))"
    if number: "y_js (position_js (integrate_js (?hp1 p))) \<noteq> NaN"
  proof -
    let ?Q = "\<lambda>q. js_le (Num FLOOR_Y) (y_js (position_js q)) \<and>
                 y_js (position_js (integrate_js q)) \<noteq> NaN"
    have first: "?Q (enact_velocities_js (?hp1 p))"
      using number by (rule enact_velocities_js_floor)
    have keep: "?Q (enact_velocities_js q)" if "?Q q" for q
      using that enact_velocities_js_floor [of q] by blast
    have "?Q ((enact_velocities_js ^^ ?k) (?hp1 p))"
      by (rule funpow_establishes [where Q = ?Q and f = enact_velocities_js and q = "?hp1 p",
            OF pos first keep])
    then show ?thesis by (simp add: snd_eq)
  qed
  have finite: "js_le (Num FLOOR_Y) (y_js (position_js (snd (tick_js r hp) p)))"
    if fin: "isFinite (y_js (position_js (hp p))) \<and> isFinite (y_js (velocity_js (hp p)))"
  proof -
    have start: "finite_height (hp p)" using fin by (simp add: finite_height_def)
    have "finite_height ((enact_forces_js (Num (gravity r)) ^^ j) (hp p))" for j
      by (induction j) (simp_all add: start enact_forces_js_finite)
    then have "finite_height (?hp1 p)" by (simp add: for_people_js_funpow)
    then have "y_js (position_js (integrate_js (?hp1 p))) \<noteq> NaN"
      by (rule integrate_js_finite)
    then show ?thesis by (rule floor)
  qed
  have clamp: "y_js (velocity_js (snd (tick_js r hp) p)) = Num 0"
    if below: "js_lt (y_js (position_js (integrate_js (?hp1 p)))) (Num FLOOR_Y)"
  proof -
    let ?Q = "\<lambda>q. y_js (velocity_js q) = Num 0 \<and> y_js (position_js q) = Num FLOOR_Y"
    have first: "?Q (enact_velocities_js (?hp1 p))"
      using below by (simp add: enact_velocities_js_def floor_check_js_def)
    have keep: "?Q (enact_velocities_js q)" if "?Q q" for q
      using that floor_check_js_settled [of q] by blast
    have "?Q ((enact_velocities_js ^^ ?k) (?hp1 p))"
      by (rule funpow_establishes [where Q = ?Q and f = enact_velocities_js and q = "?hp1 p",
            OF pos first keep])
    then show ?thesis by (simp add: snd_eq)
  qed
  show ?thesis
    apply (rule conjI)
     apply (rule impI, erule floor)
    apply (rule conjI)
     apply (rule impI, erule finite)
    apply (rule impI, erule clamp)
    done
qed

theorem tick_js_floor_witness:
  "(''u'', 0) \<in> set (people example_room) \<and>
   isFinite (y_js (position_js (js_Person (example_heap 0)))) \<and>
   isFinite (y_js (velocity_js (js_Person (example_heap 0)))) \<and>
   js_lt (y_js (position_js (integrate_js
        (for_people_js (enact_forces_js (Num (gravity example_room)))
           (map snd (people example_room)) (\<lambda>a. js_Person (example_heap a)) 0))))
      (Num FLOOR_Y) \<and>
   js_le (Num FLOOR_Y)
      (y_js (position_js (snd (tick_js example_room (\<lambda>a. js_Person (example_heap a))) 0))) \<and>
   y_js (velocity_js (snd (tick_js example_room (\<lambda>a. js_Person (example_heap a))) 0)) = Num 0"
proof -
  let ?hp = "\<lambda>a. js_Person (example_heap a)"
  have member: "(''u'', 0) \<in> set (people example_room)"
    by (simp add: example_room_def)
  have fin1: "isFinite (y_js (position_js (?hp 0)))"
    and fin2: "isFinite (y_js (velocity_js (?hp 0)))"
    by (simp_all add: js_Person_def js_Vector_def)
  have below: "js_lt (y_js (position_js (integrate_js
        (for_people_js (enact_forces_js (Num (gravity example_room)))
           (map snd (people example_room)) ?hp 0))))
      (Num FLOOR_Y)"
    by (simp add: example_room_def example_heap_def for_people_js_def enact_forces_js_def
          integrate_js_def js_Person_def js_Vector_def js_sub_def createPerson_def
          TICK_LENGTH_def FLOOR_Y_def)
  note fact = tick_js_floor [OF member, of ?hp]
  have floor: "js_le (Num FLOOR_Y) (y_js (position_js (snd (tick_js example_room ?hp) 0)))"
    by (rule fact [THEN conjunct2, THEN conjunct1, THEN mp, OF conjI [OF fin1 fin2]])
  have still: "y_js (velocity_js (snd (tick_js example_room ?hp) 0)) = Num 0"
    by (rule fact [THEN conjunct2, THEN conjunct2, THEN mp, OF below])
  show ?thesis
    by (intro conjI member fin1 fin2 below floor still)
qed

theorem tick_floor_counterexample:
  "(''u'', 0) \<in> set (people example_room) \<and>
   example_heap_js 0 = fly_js None (js_Person (example_heap 0)) \<and>
   y_js (position_js (example_heap_js 0)) = NaN \<and>
   y_js (position_js (snd (tick_js example_room example_heap_js) 0)) = NaN \<and>
   \<not> js_le (Num FLOOR_Y) (y_js (position_js (snd (tick_js example_room example_heap_js) 0)))"
proof -
  have member: "(''u'', 0) \<in> set (people example_room)"
    by (simp add: example_room_def)
  have made: "example_heap_js 0 = fly_js None (js_Person (example_heap 0))"
    by (simp add: example_heap_js_def)
  have before: "y_js (position_js (example_heap_js 0)) = NaN"
    by (simp add: example_heap_js_def fly_js_def to_number_def js_Person_def js_Vector_def)
  have after: "y_js (position_js (snd (tick_js example_room example_heap_js) 0)) = NaN"
    by (simp add: tick_js_snd example_room_def example_heap_js_def fly_js_def to_number_def
          js_Person_def js_Vector_def example_heap_def createPerson_def enact_forces_js_def
          enact_velocities_js_def floor_check_js_def integrate_js_def js_sub_def)
  have "\<not> js_le (Num FLOOR_Y) NaN"
    by (simp add: js_le_def)
  then have not_above: "\<not> js_le (Num FLOOR_Y)
      (y_js (position_js (snd (tick_js example_room example_heap_js) 0)))"
    by (simp add: after)
  show ?thesis
    by (intro conjI member made before after not_above)
qed

section \<open>Consecutive ticks\<close>

lemma ticks_snoc: "ticks (Suc n) r hp = tick (fst (ticks n r hp)) (snd (ticks n r hp))"
proof (induction n arbitrary: r hp)
  case 0
  show ?case by (simp add: split_def Let_def)
next
  case (Suc n)
  have "ticks (Suc (Suc n)) r hp = ticks (Suc n) (fst (tick r hp)) (snd (tick r hp))"
    by (simp add: split_def Let_def)
  also have "\<dots> = tick (fst (ticks n (fst (tick r hp)) (snd (tick r hp))))
                       (snd (ticks n (fst (tick r hp)) (snd (tick r hp))))"
    by (rule Suc.IH)
  also have "ticks n (fst (tick r hp)) (snd (tick r hp)) = ticks (Suc n) r hp"
    by (simp add: split_def Let_def)
  finally show ?case .
qed

lemma ticks_room: "fst (ticks n r hp) = r\<lparr>serverTime := serverTime r + n\<rparr>"
proof (induction n)
  case 0
  show ?case by simp
next
  case (Suc n)
  show ?case unfolding ticks_snoc tick_fst Suc.IH by simp
qed

lemma ticks_flying: "flying (snd (ticks n r hp) p) = flying (hp p)"
proof (induction n)
  case 0
  show ?case by simp
next
  case (Suc n)
  have "flying (snd (ticks (Suc n) r hp) p) = flying (snd (ticks n r hp) p)"
    unfolding ticks_snoc tick_snd
    by (simp add: funpow_preserves enact_velocities_def floor_check_def integrate_def
          enact_forces_def)
  then show ?case by (simp only: Suc.IH)
qed

lemma enact_forces_flying: "flying q \<Longrightarrow> enact_forces g q = q"
  by (simp add: enact_forces_def)

lemma enact_velocities_no_clamp:
  "\<not> y (position (integrate q)) < FLOOR_Y \<Longrightarrow> y (velocity (enact_velocities q)) = y (velocity q)"
  by (simp add: enact_velocities_def floor_check_def integrate_def)

text \<open>
  C2. A Person stored in the room under one occupant id, whose floor check does not fire
  during \<open>n\<close> consecutive ticks: if it is not flying, its \<^verbatim>\<open>velocity.y\<close> after the
  \<open>n\<close> ticks is the initial value minus \<open>gravity * TICK_LENGTH * n\<close>; if it is flying,
  \<^verbatim>\<open>velocity.y\<close> is the initial value. For a flying Person the gravity loop of the tick
  leaves \<^verbatim>\<open>velocity.y\<close> as it is after any number of ticks. That a Person object is
  stored in a room once holds in every state of the running server
  (\<open>reachable_people_once\<close> below).
\<close>

theorem ticks_velocity:
  "(count_list (map snd (people r)) p = 1 \<and>
    (\<forall>k<n. \<not> y (position (integrate (enact_forces (gravity r) (snd (ticks k r hp) p))))
              < FLOOR_Y)
    \<longrightarrow> y (velocity (snd (ticks n r hp) p))
          = (if flying (hp p) then y (velocity (hp p))
             else y (velocity (hp p)) - gravity r * TICK_LENGTH * real n)) \<and>
   (flying (hp p)
    \<longrightarrow> (\<forall>n. y (velocity (for_people (enact_forces (gravity r)) (map snd (people r))
                              (snd (ticks n r hp)) p))
             = y (velocity (snd (ticks n r hp) p))))"
proof (intro conjI impI allI)
  assume a: "count_list (map snd (people r)) p = 1 \<and>
    (\<forall>k<n. \<not> y (position (integrate (enact_forces (gravity r) (snd (ticks k r hp) p))))
              < FLOOR_Y)"
  then have once: "count_list (map snd (people r)) p = 1"
    and free: "\<And>k. k < n \<Longrightarrow>
       \<not> y (position (integrate (enact_forces (gravity r) (snd (ticks k r hp) p)))) < FLOOR_Y"
    by simp_all
  have "m \<le> n \<Longrightarrow> y (velocity (snd (ticks m r hp) p))
          = (if flying (hp p) then y (velocity (hp p))
             else y (velocity (hp p)) - gravity r * TICK_LENGTH * real m)" for m
  proof (induction m)
    case 0
    show ?case by simp
  next
    case (Suc m)
    let ?q = "snd (ticks m r hp) p"
    have lt: "m < n" using Suc.prems by simp
    have now: "snd (ticks (Suc m) r hp) p = enact_velocities (enact_forces (gravity r) ?q)"
      unfolding ticks_snoc tick_snd by (simp add: ticks_room once)
    have before: "y (velocity ?q)
        = (if flying (hp p) then y (velocity (hp p))
           else y (velocity (hp p)) - gravity r * TICK_LENGTH * real m)"
      using Suc.IH lt by simp
    have forces: "y (velocity (enact_forces (gravity r) ?q))
        = (if flying (hp p) then y (velocity ?q)
           else y (velocity ?q) - gravity r * TICK_LENGTH)"
      by (simp add: enact_forces_def ticks_flying)
    have "y (velocity (snd (ticks (Suc m) r hp) p))
        = y (velocity (enact_velocities (enact_forces (gravity r) ?q)))"
      by (simp only: now)
    also have "\<dots> = y (velocity (enact_forces (gravity r) ?q))"
      by (rule enact_velocities_no_clamp) (rule free [OF lt])
    also have "\<dots> = (if flying (hp p) then y (velocity (hp p))
           else y (velocity (hp p)) - gravity r * TICK_LENGTH * real (Suc m))"
      by (simp add: forces before algebra_simps)
    finally show ?case .
  qed
  then show "y (velocity (snd (ticks n r hp) p))
          = (if flying (hp p) then y (velocity (hp p))
             else y (velocity (hp p)) - gravity r * TICK_LENGTH * real n)" by simp
next
  fix m
  assume fl: "flying (hp p)"
  let ?q = "snd (ticks m r hp) p"
  have "flying ?q" using fl by (simp add: ticks_flying)
  then have "(enact_forces (gravity r) ^^ k) ?q = ?q" for k
    by (induction k) (simp_all add: enact_forces_flying)
  then show "y (velocity (for_people (enact_forces (gravity r)) (map snd (people r))
                              (snd (ticks m r hp)) p))
             = y (velocity (snd (ticks m r hp) p))"
    by (simp add: for_people_funpow)
qed

theorem ticks_velocity_witness:
  "count_list (map snd (people example_room)) 3 = 1 \<and>
   \<not> flying (example_heap 3) \<and>
   \<not> y (position (integrate (enact_forces (gravity example_room)
          (snd (ticks 0 example_room example_heap) 3)))) < FLOOR_Y \<and>
   \<not> y (position (integrate (enact_forces (gravity example_room)
          (snd (ticks 1 example_room example_heap) 3)))) < FLOOR_Y \<and>
   y (velocity (snd (ticks 2 example_room example_heap) 3))
     = y (velocity (example_heap 3)) - gravity example_room * TICK_LENGTH * real 2 \<and>
   flying (example_heap 1) \<and>
   y (velocity (for_people (enact_forces (gravity example_room))
                  (map snd (people example_room)) (snd (ticks 2 example_room example_heap)) 1))
     = y (velocity (snd (ticks 2 example_room example_heap) 1))"
proof -
  let ?P = "\<lambda>k. \<not> y (position (integrate (enact_forces (gravity example_room)
          (snd (ticks k example_room example_heap) 3)))) < FLOOR_Y"
  have once: "count_list (map snd (people example_room)) 3 = 1"
    by (simp add: example_room_def)
  have falling: "\<not> flying (example_heap 3)"
    by (simp add: example_heap_def createPerson_def)
  have first: "?P 0"
    by (simp add: example_room_def example_heap_def enact_forces_def integrate_def
          createPerson_def TICK_LENGTH_def FLOOR_Y_def)
  have second: "?P 1"
  proof -
    have "snd (ticks 1 example_room example_heap) 3
        = enact_velocities (enact_forces (gravity example_room) (example_heap 3))"
      by (simp add: split_def Let_def tick_snd example_room_def)
    then show ?thesis
      by (simp add: example_room_def example_heap_def enact_forces_def enact_velocities_def
            floor_check_def integrate_def createPerson_def TICK_LENGTH_def FLOOR_Y_def)
  qed
  have free: "\<forall>k<2. ?P k"
  proof (intro allI impI)
    fix k :: nat
    assume "k < 2"
    then have "k = 0 \<or> k = 1" by auto
    then show "?P k" using first second by auto
  qed
  have up: "flying (example_heap 1)"
    by (simp add: example_heap_def createPerson_def)
  have "y (velocity (snd (ticks 2 example_room example_heap) 3))
     = (if flying (example_heap 3) then y (velocity (example_heap 3))
        else y (velocity (example_heap 3)) - gravity example_room * TICK_LENGTH * real 2)"
    using ticks_velocity [of example_room 3 2 example_heap, THEN conjunct1] once free
    by (rule mp [OF _ conjI])
  then have fell: "y (velocity (snd (ticks 2 example_room example_heap) 3))
     = y (velocity (example_heap 3)) - gravity example_room * TICK_LENGTH * real 2"
    using falling by simp
  have kept: "y (velocity (for_people (enact_forces (gravity example_room))
                  (map snd (people example_room)) (snd (ticks 2 example_room example_heap)) 1))
     = y (velocity (snd (ticks 2 example_room example_heap) 1))"
    using ticks_velocity [of example_room 1 2 example_heap, THEN conjunct2, THEN mp, OF up]
    by (rule spec)
  show ?thesis
    by (intro conjI once falling first second fell up kept)
qed

section \<open>The tick counter\<close>

lemma apply_op_serverTime: "serverTime (fst st) \<le> serverTime (fst (apply_op op st))"
proof -
  obtain r hp t where st: "st = (r, hp, t)" by (cases st) auto
  show ?thesis
    by (cases op) (simp_all add: st split_def Let_def start_def tick_fst onTick_def offTick_def)
qed

lemma room_ops_serverTime: "serverTime (fst st) \<le> serverTime (fst (room_ops ops st))"
proof (induction ops arbitrary: st)
  case Nil
  show ?case by (simp add: room_ops_def)
next
  case (Cons op ops)
  have "serverTime (fst st) \<le> serverTime (fst (apply_op op st))"
    by (rule apply_op_serverTime)
  also have "\<dots> \<le> serverTime (fst (room_ops ops (apply_op op st)))"
    by (rule Cons.IH)
  finally show ?case by (simp add: room_ops_def)
qed

text \<open>
  C3. \<^verbatim>\<open>serverTime\<close> is 0 in a Room as constructed, one \<^verbatim>\<open>tick\<close> adds exactly 1 to it,
  and no sequence of Room operations makes it smaller.
\<close>

theorem serverTime_counts_ticks:
  "serverTime (new_Room g) = 0 \<and>
   serverTime (fst (tick r hp)) = serverTime r + 1 \<and>
   (\<forall>ops t. serverTime r \<le> serverTime (fst (room_ops ops (r, hp, t))))"
  using room_ops_serverTime [of "(r, hp, t)" for t]
  by (simp add: new_Room_def tick_fst)

section \<open>Events that move a Person\<close>

text \<open>
  C7. \<^verbatim>\<open>move-forwards-backwards\<close> adds \<open>magnitude * cos yaw\<close> to \<^verbatim>\<open>position.z\<close> and
  subtracts \<open>magnitude * sin yaw\<close> from \<^verbatim>\<open>position.x\<close>; \<^verbatim>\<open>move-right-left\<close> adds
  \<open>magnitude * sin yaw\<close> to \<^verbatim>\<open>position.z\<close> and \<open>magnitude * cos yaw\<close> to
  \<^verbatim>\<open>position.x\<close>. Either handler writes to the connection's own Person object only, and
  of that Person only \<^verbatim>\<open>position.x\<close> and \<^verbatim>\<open>position.z\<close> change.
\<close>

theorem move_events:
  "handle g (MoveForwardsBackwards magnitude) (c, s)
     = Inr (c, s\<lparr>persons := (persons s)(person c :=
                     move_forwards_backwards magnitude (persons s (person c)))\<rparr>) \<and>
   handle g (MoveRightLeft magnitude) (c, s)
     = Inr (c, s\<lparr>persons := (persons s)(person c :=
                     move_right_left magnitude (persons s (person c)))\<rparr>) \<and>
   move_forwards_backwards magnitude q
     = q\<lparr>position := \<lparr>x = x (position q) - magnitude * sin (yaw q),
                       y = y (position q),
                       z = z (position q) + magnitude * cos (yaw q)\<rparr>\<rparr> \<and>
   move_right_left magnitude q
     = q\<lparr>position := \<lparr>x = x (position q) + magnitude * cos (yaw q),
                       y = y (position q),
                       z = z (position q) + magnitude * sin (yaw q)\<rparr>\<rparr>"
  by (simp add: on_person_def move_forwards_backwards_def move_right_left_def Let_def)

text \<open>Where the dividend is not negative, \<^verbatim>\<open>%\<close> is the mathematical remainder.\<close>

lemma js_rem_pos: "0 \<le> a \<Longrightarrow> 0 < b \<Longrightarrow> js_rem a b = a - b * of_int \<lfloor>a / b\<rfloor>"
  by (simp add: js_rem_def)

text \<open>
  C8. \<^verbatim>\<open>rotate-counterclockwise\<close> sets \<^verbatim>\<open>yaw\<close> to \<open>yaw + radians\<close> when that sum is
  at most \<open>2 * pi\<close>, and otherwise to \<open>((yaw + radians) mod pi) * 2\<close>; and there are a
  Person and an angle for which the new \<^verbatim>\<open>yaw\<close> is outside \<open>[0, 2 * pi)\<close>.
\<close>

theorem rotate_counterclockwise_wrap:
  "handle g (RotateCounterclockwise radians) (c, s)
     = Inr (c, s\<lparr>persons := (persons s)(person c :=
                     rotate_counterclockwise radians (persons s (person c)))\<rparr>) \<and>
   yaw (rotate_counterclockwise radians q)
     = (if yaw q + radians \<le> 2 * pi then yaw q + radians
        else js_rem (yaw q + radians) pi * 2) \<and>
   yaw (rotate_counterclockwise radians q)
     = (if yaw q + radians \<le> 2 * pi then yaw q + radians
        else (yaw q + radians - pi * of_int \<lfloor>(yaw q + radians) / pi\<rfloor>) * 2) \<and>
   (\<exists>q' radians'. \<not> (0 \<le> yaw (rotate_counterclockwise radians' q') \<and>
                     yaw (rotate_counterclockwise radians' q') < 2 * pi))"
proof (intro conjI)
  show "handle g (RotateCounterclockwise radians) (c, s)
     = Inr (c, s\<lparr>persons := (persons s)(person c :=
                     rotate_counterclockwise radians (persons s (person c)))\<rparr>)"
    by (simp add: on_person_def)
next
  show rule: "yaw (rotate_counterclockwise radians q)
     = (if yaw q + radians \<le> 2 * pi then yaw q + radians
        else js_rem (yaw q + radians) pi * 2)"
    by (simp add: rotate_counterclockwise_def Let_def not_le mult.commute)
  show "yaw (rotate_counterclockwise radians q)
     = (if yaw q + radians \<le> 2 * pi then yaw q + radians
        else (yaw q + radians - pi * of_int \<lfloor>(yaw q + radians) / pi\<rfloor>) * 2)"
  proof (cases "yaw q + radians \<le> 2 * pi")
    case True
    then show ?thesis by (simp add: rule)
  next
    case False
    then have "0 \<le> yaw q + radians" using pi_gt_zero by linarith
    then show ?thesis using False by (simp add: rule js_rem_pos)
  qed
next
  let ?q = "createPerson None None None None None None None None"
  have small: "\<not> pi * 2 < - 1" using pi_gt_zero by linarith
  have "yaw (rotate_counterclockwise (- 1) ?q) = - 1"
    by (simp add: rotate_counterclockwise_def Let_def createPerson_def small)
  then have "\<not> (0 \<le> yaw (rotate_counterclockwise (- 1) ?q) \<and>
      yaw (rotate_counterclockwise (- 1) ?q) < 2 * pi)"
    by simp
  then show "\<exists>q' radians'. \<not> (0 \<le> yaw (rotate_counterclockwise radians' q') \<and>
                     yaw (rotate_counterclockwise radians' q') < 2 * pi)"
    by blast
qed




section \<open>The username event\<close>

lemma run_joined:
  "run (98 / 10) [Connection 0 ''u'', Message 0 (JoinRoom ''A'')] initial = Inr joined"
  by (simp add: initial_def joined_def on_connection_def new_person_def on_room_def Let_def
        new_Room_def onTick_def start_def setInterval_def addToRoom_def joined_room_def)

text \<open>The \<^verbatim>\<open>username\<close> handler of any connection whose \<^verbatim>\<open>roomID\<close> is set throws.\<close>

lemma on_username_in_room:
  "roomID c \<noteq> [] \<Longrightarrow> on_username name (c, s) = Inl (TypeError, c, s)"
  by (simp add: on_username_def rooms_property_def)

text \<open>
  C6. A socket connects and joins room A; its Person is then in the registry under that
  room and its user id. When the socket sends \<^verbatim>\<open>username\<close>, the handler throws a
  TypeError with nothing written: the Person keeps the username it was created with.
\<close>

theorem username_event_throws:
  "run (98 / 10) [Connection 0 ''u'', Message 0 (JoinRoom ''A'')] initial = Inr joined \<and>
   map_of (rooms (server joined)) ''A'' = Some joined_room \<and>
   map_of (people joined_room) ''u'' = Some 0 \<and>
   conns joined 0 = Some \<lparr>userID = ''u'', roomID = ''A'', person = 0\<rparr> \<and>
   step (98 / 10) (Message 0 (Username ''bob'')) joined = Inl (TypeError, joined) \<and>
   username (persons (server joined) 0) = ''u''"
proof (intro conjI)
  show "run (98 / 10) [Connection 0 ''u'', Message 0 (JoinRoom ''A'')] initial = Inr joined"
    by (rule run_joined)
  show "step (98 / 10) (Message 0 (Username ''bob'')) joined = Inl (TypeError, joined)"
    by (simp add: joined_def on_username_def rooms_property_def)
qed (simp_all add: joined_def joined_room_def createPerson_def)

section \<open>The registry\<close>

text \<open>
  C5. \<^verbatim>\<open>addToRoom\<close> throws "Room does not exist" exactly when the room id is not in the
  registry, and has then written nothing. When the room id is present it stores the given
  Person under the user id in that room's \<^verbatim>\<open>people\<close>; the other occupants of the room,
  every other room, the order of the registry and the Person objects are as before.
\<close>

theorem addToRoom_spec:
  "((\<exists>e. addToRoom roomId userId (Some p) s = Inl e) \<longleftrightarrow> map_of (rooms s) roomId = None) \<and>
   (map_of (rooms s) roomId = None \<longrightarrow>
      addToRoom roomId userId (Some p) s = Inl (Error (''Room does not exist: '' @ roomId), s)) \<and>
   (\<forall>r. map_of (rooms s) roomId = Some r \<longrightarrow>
      (\<exists>s'. addToRoom roomId userId (Some p) s = Inr s' \<and>
            map_of (rooms s') roomId = Some (r\<lparr>people := AList.update userId p (people r)\<rparr>) \<and>
            map_of (AList.update userId p (people r)) userId = Some p \<and>
            (\<forall>u. u \<noteq> userId \<longrightarrow>
               map_of (AList.update userId p (people r)) u = map_of (people r) u) \<and>
            (\<forall>k. k \<noteq> roomId \<longrightarrow> map_of (rooms s') k = map_of (rooms s) k) \<and>
            map fst (rooms s') = map fst (rooms s) \<and>
            persons s' = persons s \<and> timers s' = timers s \<and> nextRef s' = nextRef s))"
proof (cases "map_of (rooms s) roomId")
  case None
  then show ?thesis by (simp add: addToRoom_def)
next
  case (Some r)
  have keys: "map fst (AList.update roomId v (rooms s)) = map fst (rooms s)" for v
    using Some by (simp add: update_keys map_of_eq_None_iff [symmetric])
  show ?thesis
    using Some by (simp add: addToRoom_def update_conv' keys)
qed

theorem addToRoom_spec_witness:
  "map_of (rooms example_server) ''B'' = None \<and>
   addToRoom ''B'' ''n'' (Some 7) example_server
     = Inl (Error ''Room does not exist: B'', example_server) \<and>
   map_of (rooms example_server) ''A'' = Some example_room \<and>
   (\<exists>s'. addToRoom ''A'' ''n'' (Some 7) example_server = Inr s' \<and>
         map_of (rooms s') ''A''
           = Some (example_room\<lparr>people := [(''u'', 0), (''v'', 1), (''w'', 3), (''n'', 7)]\<rparr>) \<and>
         persons s' = persons example_server)"
proof -
  have absent: "map_of (rooms example_server) ''B'' = None"
    by (simp add: example_server_def)
  have present: "map_of (rooms example_server) ''A'' = Some example_room"
    by (simp add: example_server_def)
  have ppl: "AList.update ''n'' 7 (people example_room)
      = [(''u'', 0), (''v'', 1), (''w'', 3), (''n'', 7)]"
    by (simp add: example_room_def)
  from addToRoom_spec [of "''B''" "''n''" 7 example_server] absent
  have "addToRoom ''B'' ''n'' (Some 7) example_server
     = Inl (Error ''Room does not exist: B'', example_server)"
    by simp
  moreover from addToRoom_spec [of "''A''" "''n''" 7 example_server] present
  have "\<exists>s'. addToRoom ''A'' ''n'' (Some 7) example_server = Inr s' \<and>
         map_of (rooms s') ''A''
           = Some (example_room\<lparr>people := AList.update ''n'' 7 (people example_room)\<rparr>) \<and>
         persons s' = persons example_server"
    by blast
  ultimately show ?thesis using absent present by (simp add: ppl)
qed

lemma set_update_distinct:
  "distinct (map fst al) \<Longrightarrow>
   set (AList.update k v al) = insert (k, v) {e \<in> set al. fst e \<noteq> k}"
  by (induction al) (auto simp: rev_image_eqI)

lemma set_delete: "set (AList.delete k al) = {e \<in> set al. fst e \<noteq> k}"
  by (auto simp: AList.delete_eq)

lemma update_absent: "map_of al k = None \<Longrightarrow> AList.update k v al = al @ [(k, v)]"
  by (induction al) (auto split: if_splits)

lemma map_of_snoc_absent: "map_of al k = None \<Longrightarrow> map_of (al @ [(k, v)]) k = Some v"
  by (induction al) (auto split: if_splits)

lemma update_snoc_absent:
  "map_of al k = None \<Longrightarrow> AList.update k w (al @ [(k, v)]) = al @ [(k, w)]"
  by (induction al) (auto split: if_splits)

lemma removeFromRoom_absent:
  "map_of (rooms s) roomId = None \<Longrightarrow> removeFromRoom roomId userId s = s"
  by (simp add: removeFromRoom_def)

lemma removeFromRoom_stays:
  assumes "map_of (rooms s) roomId = Some r" and "AList.delete userId (people r) \<noteq> []"
  shows "removeFromRoom roomId userId s
     = s\<lparr>rooms := AList.update roomId (r\<lparr>people := AList.delete userId (people r)\<rparr>) (rooms s)\<rparr>"
  using assms by (simp add: removeFromRoom_def Let_def)

lemma removeFromRoom_teardown:
  assumes "map_of (rooms s) roomId = Some r" and "AList.delete userId (people r) = []"
  shows "removeFromRoom roomId userId s
     = s\<lparr>timers := stop r (timers s), rooms := AList.delete roomId (rooms s)\<rparr>"
  using assms
  by (simp add: removeFromRoom_def Let_def removeRoom_def update_conv' stop_def delete_update_same)

lemma removeFromRoom_not_member:
  assumes "map_of (rooms s) roomId = Some r" and "userId \<notin> fst ` set (people r)"
    and "people r \<noteq> []"
  shows "removeFromRoom roomId userId s = s"
proof -
  have same: "AList.delete userId (people r) = people r"
    using assms(2) by simp
  have "AList.update roomId r (rooms s) = rooms s"
    using assms(1) by (rule update_triv)
  then show ?thesis
    using assms(1,3) by (simp add: removeFromRoom_def Let_def same)
qed

lemma registry_ok_update_people:
  assumes ok: "registry_ok s" and Some: "map_of (rooms s) roomId = Some r"
    and nonempty: "ppl \<noteq> []"
  shows "registry_ok (s\<lparr>rooms := AList.update roomId (r\<lparr>people := ppl\<rparr>) (rooms s)\<rparr>)"
proof -
  let ?r1 = "r\<lparr>people := ppl\<rparr>"
  have dist: "distinct (map fst (rooms s))" using ok by (simp add: registry_ok_def)
  have mem: "(roomId, r) \<in> set (rooms s)" using Some by (rule map_of_SomeD)
  have each: "people r' \<noteq> [] \<and>
        (\<exists>h. tickerHandle r' = Some h \<and> h \<in> set (armed (timers s)) \<and> h < fresh (timers s))"
    if "(k, r') \<in> set (rooms s)" for k r'
    using ok that unfolding registry_ok_def by blast
  have uniq: "k = k'"
    if "(k, r1) \<in> set (rooms s)" "(k', r2) \<in> set (rooms s)" "tickerHandle r1 = tickerHandle r2"
    for k k' r1 r2
    using ok that unfolding registry_ok_def by blast
  have set_eq: "set (AList.update roomId ?r1 (rooms s))
      = insert (roomId, ?r1) {e \<in> set (rooms s). fst e \<noteq> roomId}"
    using dist by (rule set_update_distinct)
  have d': "distinct (map fst (AList.update roomId ?r1 (rooms s)))"
    using dist by (rule distinct_update)
  have e': "people r' \<noteq> [] \<and>
      (\<exists>h. tickerHandle r' = Some h \<and> h \<in> set (armed (timers s)) \<and> h < fresh (timers s))"
    if "(k, r') \<in> set (AList.update roomId ?r1 (rooms s))" for k r'
  proof (cases "(k, r') = (roomId, ?r1)")
    case True
    then show ?thesis using nonempty each [OF mem] by auto
  next
    case False
    then have "(k, r') \<in> set (rooms s)" using that by (auto simp: set_eq)
    then show ?thesis by (rule each)
  qed
  have handle_of: "\<exists>r0. (k, r0) \<in> set (rooms s) \<and> tickerHandle r0 = tickerHandle r'"
    if "(k, r') \<in> set (AList.update roomId ?r1 (rooms s))" for k r'
    using that mem by (auto simp: set_eq)
  have u': "k = k'"
    if a: "(k, r1) \<in> set (AList.update roomId ?r1 (rooms s))"
      and b: "(k', r2) \<in> set (AList.update roomId ?r1 (rooms s))"
      and c: "tickerHandle r1 = tickerHandle r2"
    for k k' r1 r2
  proof -
    obtain r1' where 1: "(k, r1') \<in> set (rooms s)" "tickerHandle r1' = tickerHandle r1"
      using handle_of [OF a] by blast
    obtain r2' where 2: "(k', r2') \<in> set (rooms s)" "tickerHandle r2' = tickerHandle r2"
      using handle_of [OF b] by blast
    show ?thesis using uniq [OF 1(1) 2(1)] 1(2) 2(2) c by simp
  qed
  show ?thesis
    unfolding registry_ok_def using d' e' u' by simp
qed

lemma registry_ok_teardown:
  assumes ok: "registry_ok s" and Some: "map_of (rooms s) roomId = Some r"
  shows "registry_ok (s\<lparr>timers := stop r (timers s), rooms := AList.delete roomId (rooms s)\<rparr>)"
proof -
  have dist: "distinct (map fst (rooms s))" using ok by (simp add: registry_ok_def)
  have mem: "(roomId, r) \<in> set (rooms s)" using Some by (rule map_of_SomeD)
  have each: "people r' \<noteq> [] \<and>
        (\<exists>h. tickerHandle r' = Some h \<and> h \<in> set (armed (timers s)) \<and> h < fresh (timers s))"
    if "(k, r') \<in> set (rooms s)" for k r'
    using ok that unfolding registry_ok_def by blast
  have uniq: "k = k'"
    if "(k, r1) \<in> set (rooms s)" "(k', r2) \<in> set (rooms s)" "tickerHandle r1 = tickerHandle r2"
    for k k' r1 r2
    using ok that unfolding registry_ok_def by blast
  obtain h where h: "tickerHandle r = Some h" using each [OF mem] by blast
  have eq: "stop r (timers s) = (timers s)\<lparr>armed := removeAll h (armed (timers s))\<rparr>"
    by (simp add: stop_def clearInterval_def h)
  have d': "distinct (map fst (AList.delete roomId (rooms s)))"
    using dist by (rule distinct_delete)
  have e': "people r' \<noteq> [] \<and>
      (\<exists>h'. tickerHandle r' = Some h' \<and> h' \<in> set (removeAll h (armed (timers s))) \<and>
            h' < fresh (timers s))"
    if "(k, r') \<in> set (AList.delete roomId (rooms s))" for k r'
  proof -
    have in_s: "(k, r') \<in> set (rooms s)" and ne: "k \<noteq> roomId"
      using that by (auto simp: set_delete)
    obtain h' where h': "tickerHandle r' = Some h'" "h' \<in> set (armed (timers s))"
        "h' < fresh (timers s)"
      using each [OF in_s] by blast
    have "h' \<noteq> h" using uniq [OF in_s mem] ne h h'(1) by auto
    then show ?thesis using each [OF in_s] h' by auto
  qed
  have u': "k = k'"
    if "(k, r1) \<in> set (AList.delete roomId (rooms s))"
      "(k', r2) \<in> set (AList.delete roomId (rooms s))" "tickerHandle r1 = tickerHandle r2"
    for k k' r1 r2
    using that uniq by (auto simp: set_delete)
  show ?thesis
    unfolding eq registry_ok_def using d' e' u' by simp
qed

lemma registry_ok_removeFromRoom:
  assumes ok: "registry_ok s"
  shows "registry_ok (removeFromRoom roomId userId s)"
proof (cases "map_of (rooms s) roomId")
  case None
  then show ?thesis using ok by (simp add: removeFromRoom_absent)
next
  case (Some r)
  show ?thesis
  proof (cases "AList.delete userId (people r) = []")
    case False
    show ?thesis
      unfolding removeFromRoom_stays [OF Some False]
      using ok Some False by (rule registry_ok_update_people)
  next
    case True
    show ?thesis
      unfolding removeFromRoom_teardown [OF Some True]
      using ok Some by (rule registry_ok_teardown)
  qed
qed

lemma cleared_removeFromRoom:
  "cleared h (timers s) \<Longrightarrow> cleared h (timers (removeFromRoom roomId userId s))"
  by (auto simp: removeFromRoom_def removeRoom_def Let_def cleared_def stop_def clearInterval_def
        split: option.splits)

lemma rooms_removeFromRoom_None:
  "map_of (rooms s) k = None \<Longrightarrow> map_of (rooms (removeFromRoom roomId userId s)) k = None"
  by (auto simp: removeFromRoom_def removeRoom_def Let_def update_conv' delete_conv'
        split: option.splits)

lemma on_room_absent:
  assumes "s1 = (if roomID c \<noteq> [] then removeFromRoom (roomID c) (userID c) s else s)"
    and "map_of (rooms s1) k = None"
  shows "on_room g k (c, s)
     = Inr (c\<lparr>roomID := k\<rparr>,
            s1\<lparr>nextRef := Suc (nextRef s1),
               timers := \<lparr>armed = fresh (timers s1) # armed (timers s1),
                          fresh = Suc (fresh (timers s1))\<rparr>,
               rooms := rooms s1 @
                 [(k, \<lparr>people = [(userID c, person c)], gravity = g,
                       tickerHandle = Some (fresh (timers s1)), serverTime = 0,
                       tickCallbacks = [nextRef s1]\<rparr>)]\<rparr>)"
proof -
  have "map_of (rooms s1 @ [(k, v)]) k = Some v" for v
    using assms(2) by (rule map_of_snoc_absent)
  then show ?thesis
    using assms(2)
    by (simp add: on_room_def Let_def assms(1) [symmetric] new_Room_def onTick_def start_def
          setInterval_def addToRoom_def update_absent update_snoc_absent)
qed

lemma on_room_present:
  assumes "s1 = (if roomID c \<noteq> [] then removeFromRoom (roomID c) (userID c) s else s)"
    and "map_of (rooms s1) k = Some r"
  shows "on_room g k (c, s)
     = Inr (c\<lparr>roomID := k\<rparr>,
            s1\<lparr>rooms := AList.update k
                 (r\<lparr>people := AList.update (userID c) (person c) (people r)\<rparr>) (rooms s1)\<rparr>)"
  using assms(2)
  by (simp add: on_room_def Let_def assms(1) [symmetric] addToRoom_def)

lemma registry_ok_new_room:
  assumes ok: "registry_ok s" and absent: "map_of (rooms s) k = None" and nonempty: "ppl \<noteq> []"
  shows "registry_ok
     (s\<lparr>nextRef := n,
        timers := \<lparr>armed = fresh (timers s) # armed (timers s), fresh = Suc (fresh (timers s))\<rparr>,
        rooms := rooms s @
          [(k, \<lparr>people = ppl, gravity = g, tickerHandle = Some (fresh (timers s)),
                serverTime = 0, tickCallbacks = cbs\<rparr>)]\<rparr>)"
proof -
  have each: "people r' \<noteq> [] \<and>
        (\<exists>h. tickerHandle r' = Some h \<and> h \<in> set (armed (timers s)) \<and> h < fresh (timers s))"
    if "(k', r') \<in> set (rooms s)" for k' r'
    using ok that unfolding registry_ok_def by blast
  have uniq: "k1 = k2"
    if "(k1, r1) \<in> set (rooms s)" "(k2, r2) \<in> set (rooms s)" "tickerHandle r1 = tickerHandle r2"
    for k1 k2 r1 r2
    using ok that unfolding registry_ok_def by blast
  have notin: "k \<notin> fst ` set (rooms s)"
    using absent by (simp add: map_of_eq_None_iff)
  have dist: "distinct (map fst (rooms s))" using ok by (simp add: registry_ok_def)
  have old: "tickerHandle r' \<noteq> Some (fresh (timers s))" if "(k', r') \<in> set (rooms s)" for k' r'
    using each [OF that] by auto
  let ?new = "\<lparr>people = ppl, gravity = g, tickerHandle = Some (fresh (timers s)),
                serverTime = 0, tickCallbacks = cbs\<rparr>"
  let ?t = "\<lparr>armed = fresh (timers s) # armed (timers s), fresh = Suc (fresh (timers s))\<rparr>"
  have d': "distinct (map fst (rooms s @ [(k, ?new)]))"
    using dist notin by simp
  have e': "people r' \<noteq> [] \<and>
      (\<exists>h. tickerHandle r' = Some h \<and> h \<in> set (armed ?t) \<and> h < fresh ?t)"
    if "(k', r') \<in> set (rooms s @ [(k, ?new)])" for k' r'
  proof (cases "(k', r') = (k, ?new)")
    case True
    then show ?thesis using nonempty by auto
  next
    case False
    then have "(k', r') \<in> set (rooms s)" using that by auto
    from each [OF this] show ?thesis by auto
  qed
  have u': "k1 = k2"
    if a: "(k1, r1) \<in> set (rooms s @ [(k, ?new)])"
      and b: "(k2, r2) \<in> set (rooms s @ [(k, ?new)])"
      and c: "tickerHandle r1 = tickerHandle r2"
    for k1 k2 r1 r2
  proof (cases "(k1, r1) = (k, ?new)")
    case True
    then have "tickerHandle r2 = Some (fresh (timers s))" using c by auto
    then have "(k2, r2) \<notin> set (rooms s)" using old by blast
    then show ?thesis using True b by auto
  next
    case False
    then have in1: "(k1, r1) \<in> set (rooms s)" using a by auto
    then have "tickerHandle r2 \<noteq> Some (fresh (timers s))" using old c by metis
    then have "(k2, r2) \<in> set (rooms s)" using b by auto
    with in1 show ?thesis using c by (rule uniq)
  qed
  show ?thesis
    unfolding registry_ok_def using d' e' u' by simp
qed

lemma registry_ok_on_room:
  assumes ok: "registry_ok s" and res: "on_room g k (c, s) = Inr (c', s')"
  shows "registry_ok s'"
proof -
  define s1 where "s1 = (if roomID c \<noteq> [] then removeFromRoom (roomID c) (userID c) s else s)"
  have ok1: "registry_ok s1"
    using ok by (simp add: s1_def registry_ok_removeFromRoom)
  show ?thesis
  proof (cases "map_of (rooms s1) k")
    case None
    have "registry_ok
      (s1\<lparr>nextRef := Suc (nextRef s1),
          timers := \<lparr>armed = fresh (timers s1) # armed (timers s1),
                     fresh = Suc (fresh (timers s1))\<rparr>,
          rooms := rooms s1 @
            [(k, \<lparr>people = [(userID c, person c)], gravity = g,
                  tickerHandle = Some (fresh (timers s1)), serverTime = 0,
                  tickCallbacks = [nextRef s1]\<rparr>)]\<rparr>)"
      using ok1 None by (rule registry_ok_new_room) simp
    then show ?thesis
      using res unfolding on_room_absent [OF s1_def None] by simp
  next
    case (Some r)
    have "registry_ok (s1\<lparr>rooms := AList.update k
                 (r\<lparr>people := AList.update (userID c) (person c) (people r)\<rparr>) (rooms s1)\<rparr>)"
      using ok1 Some by (rule registry_ok_update_people) simp
    then show ?thesis
      using res unfolding on_room_present [OF s1_def Some] by simp
  qed
qed

lemma on_room_no_error: "on_room g k (c, s) \<noteq> Inl e"
proof -
  define s1 where "s1 = (if roomID c \<noteq> [] then removeFromRoom (roomID c) (userID c) s else s)"
  show ?thesis
  proof (cases "map_of (rooms s1) k")
    case None
    show ?thesis unfolding on_room_absent [OF s1_def None] by simp
  next
    case (Some r)
    show ?thesis unfolding on_room_present [OF s1_def Some] by simp
  qed
qed

lemma registry_ok_persons [simp]: "registry_ok (s\<lparr>persons := hp\<rparr>) = registry_ok s"
  by (simp add: registry_ok_def)

lemma registry_ok_handle:
  assumes ok: "registry_ok s"
  shows "(handle g m (c, s) = Inr (c', s') \<longrightarrow> registry_ok s') \<and>
         (handle g m (c, s) = Inl (e, c', s') \<longrightarrow> registry_ok s')"
proof (cases m)
  case (JoinRoom k)
  then show ?thesis
    using registry_ok_on_room [OF ok, of g k c c' s'] on_room_no_error [of g k c s "(e, c', s')"]
    by simp
next
  case Disconnect
  then show ?thesis using ok by (auto simp: on_disconnect_def registry_ok_removeFromRoom)
next
  case (Username name)
  then show ?thesis
    using ok by (auto simp: on_username_def rooms_property_def split: if_splits)
qed (use ok in \<open>auto simp: on_person_def\<close>)

lemma interval_due_keys: "map fst (fst (interval_due h rs hp)) = map fst rs"
  by (induction rs arbitrary: hp) (auto simp: split_def Let_def)

lemma interval_due_room:
  "(k, r') \<in> set (fst (interval_due h rs hp)) \<Longrightarrow>
   \<exists>r. (k, r) \<in> set rs \<and> people r' = people r \<and> tickerHandle r' = tickerHandle r"
proof (induction rs arbitrary: hp)
  case Nil
  then show ?case by simp
next
  case (Cons a rs)
  obtain k0 r0 where a: "a = (k0, r0)" by (cases a)
  show ?case
  proof (cases "tickerHandle r0 = Some h")
    case True
    then have "(k, r') = (k0, fst (tick r0 hp)) \<or>
        (k, r') \<in> set (fst (interval_due h rs (snd (tick r0 hp))))"
      using Cons.prems by (simp add: a split_def Let_def)
    then show ?thesis
    proof
      assume "(k, r') = (k0, fst (tick r0 hp))"
      then show ?thesis by (auto simp: a tick_fst)
    next
      assume "(k, r') \<in> set (fst (interval_due h rs (snd (tick r0 hp))))"
      from Cons.IH [OF this] show ?thesis by auto
    qed
  next
    case False
    then have "(k, r') = (k0, r0) \<or> (k, r') \<in> set (fst (interval_due h rs hp))"
      using Cons.prems by (simp add: a split_def Let_def)
    then show ?thesis
    proof
      assume "(k, r') = (k0, r0)"
      then show ?thesis by (auto simp: a)
    next
      assume "(k, r') \<in> set (fst (interval_due h rs hp))"
      from Cons.IH [OF this] show ?thesis by auto
    qed
  qed
qed

lemma registry_ok_interval_due:
  assumes ok: "registry_ok s"
  shows "registry_ok (s\<lparr>rooms := fst (interval_due h (rooms s) hp), persons := hp'\<rparr>)"
proof -
  let ?rs = "fst (interval_due h (rooms s) hp)"
  have each: "people r' \<noteq> [] \<and>
        (\<exists>h. tickerHandle r' = Some h \<and> h \<in> set (armed (timers s)) \<and> h < fresh (timers s))"
    if "(k', r') \<in> set (rooms s)" for k' r'
    using ok that unfolding registry_ok_def by blast
  have uniq: "k1 = k2"
    if "(k1, r1) \<in> set (rooms s)" "(k2, r2) \<in> set (rooms s)" "tickerHandle r1 = tickerHandle r2"
    for k1 k2 r1 r2
    using ok that unfolding registry_ok_def by blast
  have d': "distinct (map fst ?rs)"
    using ok by (simp add: interval_due_keys registry_ok_def)
  have e': "people r' \<noteq> [] \<and>
      (\<exists>h. tickerHandle r' = Some h \<and> h \<in> set (armed (timers s)) \<and> h < fresh (timers s))"
    if inside: "(k', r') \<in> set ?rs" for k' r'
  proof -
    obtain r where "(k', r) \<in> set (rooms s)" "people r' = people r"
        "tickerHandle r' = tickerHandle r"
      using interval_due_room [OF inside] by blast
    then show ?thesis using each [of k' r] by simp
  qed
  have u': "k1 = k2"
    if a: "(k1, r1) \<in> set ?rs" and b: "(k2, r2) \<in> set ?rs"
      and c: "tickerHandle r1 = tickerHandle r2"
    for k1 k2 r1 r2
  proof -
    obtain r1' where 1: "(k1, r1') \<in> set (rooms s)" "tickerHandle r1 = tickerHandle r1'"
      using interval_due_room [OF a] by blast
    obtain r2' where 2: "(k2, r2') \<in> set (rooms s)" "tickerHandle r2 = tickerHandle r2'"
      using interval_due_room [OF b] by blast
    show ?thesis using uniq [OF 1(1) 2(1)] 1(2) 2(2) c by simp
  qed
  show ?thesis
    unfolding registry_ok_def using d' e' u' by simp
qed

lemma registry_ok_step:
  assumes ok: "registry_ok (server S)"
  shows "(step g e S = Inr S' \<longrightarrow> registry_ok (server S')) \<and>
         (step g e S = Inl (err, S') \<longrightarrow> registry_ok (server S'))"
proof (cases e)
  case (Connection sock uuid)
  then show ?thesis
    using ok
    by (auto simp: on_connection_def new_person_def Let_def registry_ok_def split: option.splits)
next
  case (Message sock m)
  show ?thesis
  proof (cases "conns S sock")
    case None
    then show ?thesis using ok Message by auto
  next
    case (Some c)
    show ?thesis
      using Message Some registry_ok_handle [OF ok, of g m c]
      by (auto split: sum.splits prod.splits)
  qed
next
  case (Interval h)
  then show ?thesis
    using ok registry_ok_interval_due [OF ok]
    by (auto simp: split_def Let_def split: if_splits)
qed

lemma registry_ok_run:
  "registry_ok (server S) \<Longrightarrow> run g evs S = Inr S' \<Longrightarrow> registry_ok (server S')"
proof (induction evs arbitrary: S)
  case Nil
  then show ?case by simp
next
  case (Cons e evs)
  then obtain S1 where 1: "step g e S = Inr S1" and 2: "run g evs S1 = Inr S'"
    by (auto split: sum.splits)
  have "registry_ok (server S1)"
    using registry_ok_step [OF Cons.prems(1), of g e S1] 1 by simp
  then show ?case using 2 by (rule Cons.IH)
qed

lemma registry_ok_initial: "registry_ok (server initial)"
  by (simp add: registry_ok_def initial_def)

lemma cleared_on_room:
  assumes "cleared h (timers s)" and "on_room g k (c, s) = Inr (c', s')"
  shows "cleared h (timers s')"
proof -
  define s1 where "s1 = (if roomID c \<noteq> [] then removeFromRoom (roomID c) (userID c) s else s)"
  have c1: "cleared h (timers s1)"
    using assms(1) by (simp add: s1_def cleared_removeFromRoom)
  show ?thesis
  proof (cases "map_of (rooms s1) k")
    case None
    show ?thesis
      using assms(2) c1 unfolding on_room_absent [OF s1_def None]
      by (auto simp: cleared_def)
  next
    case (Some r)
    show ?thesis
      using assms(2) c1 unfolding on_room_present [OF s1_def Some] by auto
  qed
qed

lemma cleared_handle:
  assumes "cleared h (timers s)" and "handle g m (c, s) = Inr (c', s')"
  shows "cleared h (timers s')"
proof (cases m)
  case (JoinRoom k)
  then show ?thesis using assms cleared_on_room by simp
next
  case Disconnect
  then show ?thesis using assms by (auto simp: on_disconnect_def cleared_removeFromRoom)
next
  case (Username name)
  then show ?thesis
    using assms by (auto simp: on_username_def rooms_property_def split: if_splits)
qed (use assms in \<open>auto simp: on_person_def\<close>)

lemma cleared_step:
  assumes "cleared h (timers (server S))" and "step g e S = Inr S'"
  shows "cleared h (timers (server S'))"
proof (cases e)
  case (Connection sock uuid)
  then show ?thesis
    using assms
    by (auto simp: on_connection_def new_person_def Let_def split: option.splits)
next
  case (Message sock m)
  show ?thesis
  proof (cases "conns S sock")
    case None
    then show ?thesis using assms Message by auto
  next
    case (Some c)
    show ?thesis
      using Message Some assms cleared_handle [OF assms(1), of g m c]
      by (auto split: sum.splits prod.splits)
  qed
next
  case (Interval h')
  then show ?thesis
    using assms by (auto simp: split_def Let_def split: if_splits)
qed

lemma cleared_run:
  "cleared h (timers (server S)) \<Longrightarrow> run g evs S = Inr S' \<Longrightarrow> cleared h (timers (server S'))"
proof (induction evs arbitrary: S)
  case Nil
  then show ?case by simp
next
  case (Cons e evs)
  then obtain S1 where 1: "step g e S = Inr S1" and 2: "run g evs S1 = Inr S'"
    by (auto split: sum.splits)
  have "cleared h (timers (server S1))"
    using Cons.prems(1) 1 by (rule cleared_step)
  then show ?case using 2 by (rule Cons.IH)
qed

lemma teardown_forever:
  assumes ok: "registry_ok s" and Some: "map_of (rooms s) roomId = Some r"
    and empty: "AList.delete userId (people r) = []"
  shows "\<exists>h. tickerHandle r = Some h \<and> h \<in> set (armed (timers s)) \<and>
             (\<forall>cn evs S'. run g evs \<lparr>server = removeFromRoom roomId userId s, conns = cn\<rparr> = Inr S'
                \<longrightarrow> h \<notin> set (armed (timers (server S'))) \<and> step g (Interval h) S' = Inr S')"
proof -
  have mem: "(roomId, r) \<in> set (rooms s)" using Some by (rule map_of_SomeD)
  then obtain h where h: "tickerHandle r = Some h" "h \<in> set (armed (timers s))"
      "h < fresh (timers s)"
    using ok unfolding registry_ok_def by blast
  have now: "cleared h (timers (removeFromRoom roomId userId s))"
    unfolding removeFromRoom_teardown [OF Some empty]
    using h by (simp add: cleared_def stop_def clearInterval_def)
  have later: "h \<notin> set (armed (timers (server S'))) \<and> step g (Interval h) S' = Inr S'"
    if "run g evs \<lparr>server = removeFromRoom roomId userId s, conns = cn\<rparr> = Inr S'"
    for cn evs S'
  proof -
    have "cleared h (timers (server S'))"
      using cleared_run [OF _ that] now by simp
    then show ?thesis by (simp add: cleared_def)
  qed
  show ?thesis using h(1,2) later by blast
qed

lemma join_absent_room:
  assumes "map_of (rooms s0) roomId = None"
  shows "\<exists>c' s' r'. on_room g roomId (c, s0) = Inr (c', s') \<and>
           map_of (rooms s') roomId = Some r' \<and> serverTime r' = 0 \<and>
           people r' = [(userID c, person c)] \<and> gravity r' = g"
proof -
  define s1 where "s1 = (if roomID c \<noteq> [] then removeFromRoom (roomID c) (userID c) s0 else s0)"
  have absent: "map_of (rooms s1) roomId = None"
    using assms by (simp add: s1_def rooms_removeFromRoom_None)
  show ?thesis
    unfolding on_room_absent [OF s1_def absent]
    using map_of_snoc_absent [OF absent] by (simp del: map_of_append)
qed

text \<open>
  C4. In every state the server can be in between two events: \<^verbatim>\<open>removeFromRoom\<close> of a
  room id that is not registered, or of a user id that is not in the room, changes
  nothing. Otherwise the user id is removed from the room's \<^verbatim>\<open>people\<close>. When that leaves
  \<^verbatim>\<open>people\<close> empty, the room is gone from the registry, its interval was armed and is
  cleared, and after any further events the interval is still cleared, so that its coming
  due changes nothing. A \<^verbatim>\<open>room\<close> event for a room id that is not registered creates a
  Room whose \<^verbatim>\<open>serverTime\<close> is 0.
\<close>

theorem removeFromRoom_spec:
  assumes reach: "run g evs initial = Inr S"
  shows
    "(map_of (rooms (server S)) roomId = None \<longrightarrow>
        removeFromRoom roomId userId (server S) = server S) \<and>
     (\<forall>r. map_of (rooms (server S)) roomId = Some r \<longrightarrow>
        (userId \<notin> fst ` set (people r) \<longrightarrow>
           removeFromRoom roomId userId (server S) = server S) \<and>
        (AList.delete userId (people r) \<noteq> [] \<longrightarrow>
           removeFromRoom roomId userId (server S)
             = (server S)\<lparr>rooms := AList.update roomId
                  (r\<lparr>people := AList.delete userId (people r)\<rparr>) (rooms (server S))\<rparr> \<and>
           map_of (AList.delete userId (people r)) userId = None \<and>
           (\<forall>u. u \<noteq> userId \<longrightarrow>
              map_of (AList.delete userId (people r)) u = map_of (people r) u)) \<and>
        (AList.delete userId (people r) = [] \<longrightarrow>
           map_of (rooms (removeFromRoom roomId userId (server S))) roomId = None \<and>
           (\<forall>k. k \<noteq> roomId \<longrightarrow>
              map_of (rooms (removeFromRoom roomId userId (server S))) k
                = map_of (rooms (server S)) k) \<and>
           persons (removeFromRoom roomId userId (server S)) = persons (server S) \<and>
           (\<exists>h. tickerHandle r = Some h \<and> h \<in> set (armed (timers (server S))) \<and>
              (\<forall>cn evs' S'.
                 run g evs' \<lparr>server = removeFromRoom roomId userId (server S), conns = cn\<rparr>
                   = Inr S'
                 \<longrightarrow> h \<notin> set (armed (timers (server S'))) \<and>
                     step g (Interval h) S' = Inr S')))) \<and>
     (\<forall>c s0. map_of (rooms s0) roomId = None \<longrightarrow>
        (\<exists>c' s' r'. on_room g roomId (c, s0) = Inr (c', s') \<and>
           map_of (rooms s') roomId = Some r' \<and> serverTime r' = 0 \<and>
           people r' = [(userID c, person c)] \<and> gravity r' = g))"
proof -
  let ?s = "server S"
  have ok: "registry_ok ?s"
    using registry_ok_initial reach by (rule registry_ok_run)
  have absent: "removeFromRoom roomId userId ?s = ?s" if "map_of (rooms ?s) roomId = None"
    using that by (rule removeFromRoom_absent)
  have present:
    "(userId \<notin> fst ` set (people r) \<longrightarrow> removeFromRoom roomId userId ?s = ?s) \<and>
     (AList.delete userId (people r) \<noteq> [] \<longrightarrow>
        removeFromRoom roomId userId ?s
          = ?s\<lparr>rooms := AList.update roomId
               (r\<lparr>people := AList.delete userId (people r)\<rparr>) (rooms ?s)\<rparr> \<and>
        map_of (AList.delete userId (people r)) userId = None \<and>
        (\<forall>u. u \<noteq> userId \<longrightarrow>
           map_of (AList.delete userId (people r)) u = map_of (people r) u)) \<and>
     (AList.delete userId (people r) = [] \<longrightarrow>
        map_of (rooms (removeFromRoom roomId userId ?s)) roomId = None \<and>
        (\<forall>k. k \<noteq> roomId \<longrightarrow>
           map_of (rooms (removeFromRoom roomId userId ?s)) k = map_of (rooms ?s) k) \<and>
        persons (removeFromRoom roomId userId ?s) = persons ?s \<and>
        (\<exists>h. tickerHandle r = Some h \<and> h \<in> set (armed (timers ?s)) \<and>
           (\<forall>cn evs' S'.
              run g evs' \<lparr>server = removeFromRoom roomId userId ?s, conns = cn\<rparr> = Inr S'
              \<longrightarrow> h \<notin> set (armed (timers (server S'))) \<and>
                  step g (Interval h) S' = Inr S')))"
    if Some: "map_of (rooms ?s) roomId = Some r" for r
  proof (intro conjI impI)
    assume "userId \<notin> fst ` set (people r)"
    moreover have "people r \<noteq> []"
      using ok map_of_SomeD [OF Some] unfolding registry_ok_def by blast
    ultimately show "removeFromRoom roomId userId ?s = ?s"
      using Some by (simp add: removeFromRoom_not_member)
  next
    assume "AList.delete userId (people r) \<noteq> []"
    with Some show "removeFromRoom roomId userId ?s
          = ?s\<lparr>rooms := AList.update roomId
               (r\<lparr>people := AList.delete userId (people r)\<rparr>) (rooms ?s)\<rparr>"
      by (rule removeFromRoom_stays)
  next
    show "map_of (AList.delete userId (people r)) userId = None"
      by (simp add: delete_conv')
  next
    show "\<forall>u. u \<noteq> userId \<longrightarrow>
           map_of (AList.delete userId (people r)) u = map_of (people r) u"
      by (simp add: delete_conv')
  next
    assume empty: "AList.delete userId (people r) = []"
    show "map_of (rooms (removeFromRoom roomId userId ?s)) roomId = None"
      unfolding removeFromRoom_teardown [OF Some empty] by (simp add: delete_conv')
    show "\<forall>k. k \<noteq> roomId \<longrightarrow>
           map_of (rooms (removeFromRoom roomId userId ?s)) k = map_of (rooms ?s) k"
      unfolding removeFromRoom_teardown [OF Some empty] by (simp add: delete_conv')
    show "persons (removeFromRoom roomId userId ?s) = persons ?s"
      unfolding removeFromRoom_teardown [OF Some empty] by simp
    show "\<exists>h. tickerHandle r = Some h \<and> h \<in> set (armed (timers ?s)) \<and>
           (\<forall>cn evs' S'.
              run g evs' \<lparr>server = removeFromRoom roomId userId ?s, conns = cn\<rparr> = Inr S'
              \<longrightarrow> h \<notin> set (armed (timers (server S'))) \<and>
                  step g (Interval h) S' = Inr S')"
      using ok Some empty by (rule teardown_forever)
  qed
  have join: "\<exists>c' s' r'. on_room g roomId (c, s0) = Inr (c', s') \<and>
           map_of (rooms s') roomId = Some r' \<and> serverTime r' = 0 \<and>
           people r' = [(userID c, person c)] \<and> gravity r' = g"
    if "map_of (rooms s0) roomId = None" for c s0
    using that by (rule join_absent_room)
  show ?thesis
    apply (rule conjI)
     apply (rule impI, erule absent)
    apply (rule conjI)
     apply (rule allI, rule impI, erule present)
    apply (rule allI, rule allI, rule impI, erule join)
    done
qed

theorem removeFromRoom_spec_witness:
  "run (98 / 10) [Connection 0 ''u'', Message 0 (JoinRoom ''A'')] initial = Inr joined \<and>
   map_of (rooms (server joined)) ''B'' = None \<and>
   removeFromRoom ''B'' ''u'' (server joined) = server joined \<and>
   map_of (rooms (server joined)) ''A'' = Some joined_room \<and>
   ''n'' \<notin> fst ` set (people joined_room) \<and>
   removeFromRoom ''A'' ''n'' (server joined) = server joined \<and>
   AList.delete ''u'' (people joined_room) = [] \<and>
   map_of (rooms (removeFromRoom ''A'' ''u'' (server joined))) ''A'' = None \<and>
   tickerHandle joined_room = Some 0 \<and>
   0 \<in> set (armed (timers (server joined))) \<and>
   0 \<notin> set (armed (timers (removeFromRoom ''A'' ''u'' (server joined)))) \<and>
   (\<exists>c' s' r'.
      on_room (98 / 10) ''A'' (example_conn, removeFromRoom ''A'' ''u'' (server joined))
        = Inr (c', s') \<and>
      map_of (rooms s') ''A'' = Some r' \<and> serverTime r' = 0)"
proof -
  note reach = run_joined
  note at_B = removeFromRoom_spec [OF reach, of "''B''" "''u''"]
  note at_n = removeFromRoom_spec [OF reach, of "''A''" "''n''"]
  note at_u = removeFromRoom_spec [OF reach, of "''A''" "''u''"]
  have no_B: "map_of (rooms (server joined)) ''B'' = None"
    by (simp add: joined_def)
  have has_A: "map_of (rooms (server joined)) ''A'' = Some joined_room"
    by (simp add: joined_def)
  have no_n: "''n'' \<notin> fst ` set (people joined_room)"
    by (simp add: joined_room_def)
  have last: "AList.delete ''u'' (people joined_room) = []"
    by (simp add: joined_room_def)
  have handle0: "tickerHandle joined_room = Some 0"
    by (simp add: joined_room_def)
  have same_B: "removeFromRoom ''B'' ''u'' (server joined) = server joined"
    by (rule at_B [THEN conjunct1, THEN mp, OF no_B])
  have same_n: "removeFromRoom ''A'' ''n'' (server joined) = server joined"
    by (rule at_n [THEN conjunct2, THEN conjunct1, THEN spec, THEN mp, OF has_A,
          THEN conjunct1, THEN mp, OF no_n])
  note torn = at_u [THEN conjunct2, THEN conjunct1, THEN spec, THEN mp, OF has_A,
      THEN conjunct2, THEN conjunct2, THEN mp, OF last]
  have gone: "map_of (rooms (removeFromRoom ''A'' ''u'' (server joined))) ''A'' = None"
    by (rule torn [THEN conjunct1])
  have was_armed: "0 \<in> set (armed (timers (server joined)))"
    by (simp add: joined_def)
  have is_cleared: "0 \<notin> set (armed (timers (removeFromRoom ''A'' ''u'' (server joined))))"
  proof -
    obtain h where h: "tickerHandle joined_room = Some h"
      and after: "\<forall>cn evs' S'.
        run (98 / 10) evs' \<lparr>server = removeFromRoom ''A'' ''u'' (server joined), conns = cn\<rparr>
          = Inr S' \<longrightarrow> h \<notin> set (armed (timers (server S'))) \<and>
                      step (98 / 10) (Interval h) S' = Inr S'"
      using torn [THEN conjunct2, THEN conjunct2, THEN conjunct2] by (elim exE conjE)
    have "h = 0" using h handle0 by simp
    moreover have "h \<notin> set (armed (timers (server
        \<lparr>server = removeFromRoom ''A'' ''u'' (server joined), conns = Map.empty\<rparr>)))"
      using after [THEN spec, THEN spec, THEN spec, THEN mp, of "[]" Map.empty] by simp
    ultimately show ?thesis by simp
  qed
  have again: "\<exists>c' s' r'.
      on_room (98 / 10) ''A'' (example_conn, removeFromRoom ''A'' ''u'' (server joined))
        = Inr (c', s') \<and>
      map_of (rooms s') ''A'' = Some r' \<and> serverTime r' = 0"
  proof -
    obtain c' s' r' where
      "on_room (98 / 10) ''A'' (example_conn, removeFromRoom ''A'' ''u'' (server joined))
        = Inr (c', s')" "map_of (rooms s') ''A'' = Some r'" "serverTime r' = 0"
      using at_u [THEN conjunct2, THEN conjunct2, THEN spec, THEN spec, THEN mp, OF gone,
          of example_conn]
      by (elim exE conjE)
    then show ?thesis by (intro exI conjI)
  qed
  show ?thesis
    by (intro conjI reach no_B same_B has_A no_n same_n last gone handle0 was_armed
          is_cleared again)
qed

section \<open>Person objects in a room\<close>

lemma set_update_subset: "set (AList.update k v al) \<subseteq> insert (k, v) (set al)"
  by (induction al) auto

lemma set_delete_subset: "set (AList.delete k al) \<subseteq> set al"
  by (auto simp: AList.delete_eq)

lemma from_room_refl: "from_room new r r"
  by (simp add: from_room_def)

lemma removeFromRoom_rooms:
  assumes "(k, r') \<in> set (rooms (removeFromRoom roomId userId s))"
  shows "\<exists>r. (k, r) \<in> set (rooms s) \<and> from_room [] r r'"
proof (cases "map_of (rooms s) roomId")
  case None
  then show ?thesis using assms by (auto simp: removeFromRoom_absent from_room_refl)
next
  case (Some r)
  have mem: "(roomId, r) \<in> set (rooms s)" using Some by (rule map_of_SomeD)
  let ?r1 = "r\<lparr>people := AList.delete userId (people r)\<rparr>"
  have r1: "from_room [] r ?r1"
    using set_delete_subset [of userId "people r"]
    by (auto simp: from_room_def distinct_delete)
  show ?thesis
  proof (cases "AList.delete userId (people r) = []")
    case False
    have "(k, r') \<in> insert (roomId, ?r1) (set (rooms s))"
      using assms set_update_subset [of roomId ?r1 "rooms s"]
      unfolding removeFromRoom_stays [OF Some False] by auto
    then show ?thesis using mem r1 by (auto simp: from_room_refl)
  next
    case True
    have "(k, r') \<in> set (rooms s)"
      using assms set_delete_subset [of roomId "rooms s"]
      unfolding removeFromRoom_teardown [OF Some True] by auto
    then show ?thesis by (auto simp: from_room_refl)
  qed
qed

lemma removeFromRoom_nextRef [simp]: "nextRef (removeFromRoom roomId userId s) = nextRef s"
  by (auto simp: removeFromRoom_def removeRoom_def Let_def split: option.splits)

lemma on_room_rooms:
  assumes res: "on_room g k (c, s) = Inr (c', s')"
  shows "c' = c\<lparr>roomID := k\<rparr> \<and> nextRef s \<le> nextRef s' \<and>
         (\<forall>k' r'. (k', r') \<in> set (rooms s') \<longrightarrow>
            people r' = [(userID c, person c)] \<or>
            (\<exists>r. (k', r) \<in> set (rooms s) \<and> from_room [(userID c, person c)] r r'))"
proof -
  define s1 where "s1 = (if roomID c \<noteq> [] then removeFromRoom (roomID c) (userID c) s else s)"
  have before: "\<exists>r. (k', r) \<in> set (rooms s) \<and> from_room [] r r'"
    if "(k', r') \<in> set (rooms s1)" for k' r'
    using that removeFromRoom_rooms [of k' r' "roomID c" "userID c" s]
    by (auto simp: s1_def from_room_refl split: if_splits)
  have weaken: "from_room [(userID c, person c)] r r'" if "from_room [] r r'" for r r'
    using that by (auto simp: from_room_def)
  have n1: "nextRef s1 = nextRef s" by (simp add: s1_def)
  show ?thesis
  proof (cases "map_of (rooms s1) k")
    case None
    let ?r2 = "\<lparr>people = [(userID c, person c)], gravity = g,
                tickerHandle = Some (fresh (timers s1)), serverTime = 0,
                tickCallbacks = [nextRef s1]\<rparr>"
    have rooms': "rooms s' = rooms s1 @ [(k, ?r2)]"
      using res unfolding on_room_absent [OF s1_def None] by auto
    have "people r' = [(userID c, person c)] \<or>
        (\<exists>r. (k', r) \<in> set (rooms s) \<and> from_room [(userID c, person c)] r r')"
      if "(k', r') \<in> set (rooms s')" for k' r'
    proof (cases "(k', r') = (k, ?r2)")
      case True
      then show ?thesis by auto
    next
      case False
      then have "(k', r') \<in> set (rooms s1)" using that rooms' by auto
      then show ?thesis using before weaken by blast
    qed
    then show ?thesis
      using res unfolding on_room_absent [OF s1_def None] by (auto simp: n1)
  next
    case (Some r)
    have mem: "(k, r) \<in> set (rooms s1)" using Some by (rule map_of_SomeD)
    let ?r2 = "r\<lparr>people := AList.update (userID c) (person c) (people r)\<rparr>"
    have own: "from_room [(userID c, person c)] r ?r2"
      using set_update_subset [of "userID c" "person c" "people r"]
      by (auto simp: from_room_def distinct_update)
    obtain r0 where r0: "(k, r0) \<in> set (rooms s)" "from_room [] r0 r"
      using before [OF mem] by blast
    have r2: "from_room [(userID c, person c)] r0 ?r2"
      using r0(2) own by (auto simp: from_room_def)
    have rooms': "set (rooms s') \<subseteq> insert (k, ?r2) (set (rooms s1))"
      using res set_update_subset [of k ?r2 "rooms s1"]
      unfolding on_room_present [OF s1_def Some] by auto
    have "\<exists>r. (k', r) \<in> set (rooms s) \<and> from_room [(userID c, person c)] r r'"
      if "(k', r') \<in> set (rooms s')" for k' r'
    proof (cases "(k', r') = (k, ?r2)")
      case True
      then show ?thesis using r0(1) r2 by auto
    next
      case False
      then have "(k', r') \<in> set (rooms s1)" using that rooms' by auto
      then show ?thesis using before weaken by blast
    qed
    then show ?thesis
      using res unfolding on_room_present [OF s1_def Some] by (auto simp: n1)
  qed
qed

lemma people_okI:
  assumes "\<And>k r. (k, r) \<in> set (rooms (server S)) \<Longrightarrow> distinct (map fst (people r))"
    and "\<And>k r u p. (k, r) \<in> set (rooms (server S)) \<Longrightarrow> (u, p) \<in> set (people r) \<Longrightarrow>
        owner p = u \<and> p < nextRef (server S)"
    and "\<And>sock c. conns S sock = Some c \<Longrightarrow>
        owner (person c) = userID c \<and> person c < nextRef (server S)"
  shows "people_ok S"
  unfolding people_ok_def using assms by blast

lemma handle_rooms:
  assumes res: "handle g m (c, s) = Inr (c1, s1)"
  shows "userID c1 = userID c \<and> person c1 = person c \<and> nextRef s \<le> nextRef s1 \<and>
         (\<forall>k' r'. (k', r') \<in> set (rooms s1) \<longrightarrow>
            people r' = [(userID c, person c)] \<or>
            (\<exists>r. (k', r) \<in> set (rooms s) \<and> from_room [(userID c, person c)] r r'))"
proof (cases m)
  case (JoinRoom k)
  then show ?thesis using on_room_rooms [of g k c s c1 s1] res by auto
next
  case Disconnect
  have weaken: "from_room [(userID c, person c)] r r'" if "from_room [] r r'" for r r'
    using that by (auto simp: from_room_def)
  have "\<exists>r. (k', r) \<in> set (rooms s) \<and> from_room [(userID c, person c)] r r'"
    if "(k', r') \<in> set (rooms (removeFromRoom (roomID c) (userID c) s))" for k' r'
    using removeFromRoom_rooms [OF that] weaken by blast
  then show ?thesis using Disconnect res by (auto simp: on_disconnect_def)
next
  case (Username name)
  then show ?thesis
    using res
    by (auto simp: on_username_def rooms_property_def from_room_refl split: if_splits)
qed (use res in \<open>auto simp: on_person_def from_room_refl\<close>)

lemma people_ok_transfer:
  assumes ok: "people_ok S"
    and new: "conns S sock = Some c"
    and rooms: "\<And>k r'. (k, r') \<in> set (rooms s') \<Longrightarrow>
        people r' = [(userID c, person c)] \<or>
        (\<exists>r. (k, r) \<in> set (rooms (server S)) \<and> from_room [(userID c, person c)] r r')"
    and refs: "nextRef (server S) \<le> nextRef s'"
    and conns: "\<And>sock' c'. cn sock' = Some c' \<Longrightarrow>
        \<exists>c0. conns S sock' = Some c0 \<and> userID c' = userID c0 \<and> person c' = person c0"
  shows "people_ok \<lparr>server = s', conns = cn\<rparr>"
proof -
  obtain owner where
    dist: "\<And>k r. (k, r) \<in> set (rooms (server S)) \<Longrightarrow> distinct (map fst (people r))"
    and own: "\<And>k r u p. (k, r) \<in> set (rooms (server S)) \<Longrightarrow> (u, p) \<in> set (people r) \<Longrightarrow>
        owner p = u \<and> p < nextRef (server S)"
    and con: "\<And>sock' c'. conns S sock' = Some c' \<Longrightarrow>
        owner (person c') = userID c' \<and> person c' < nextRef (server S)"
    using ok unfolding people_ok_def by blast
  have d': "distinct (map fst (people r'))" if "(k, r') \<in> set (rooms s')" for k r'
    using rooms [OF that] dist by (auto simp: from_room_def)
  have o': "owner p = u \<and> p < nextRef s'"
    if inside: "(k, r') \<in> set (rooms s')" and entry: "(u, p) \<in> set (people r')" for k r' u p
  proof -
    have "(u, p) = (userID c, person c) \<or>
        (\<exists>r. (k, r) \<in> set (rooms (server S)) \<and> (u, p) \<in> set (people r))"
      using rooms [OF inside] entry by (auto simp: from_room_def)
    then show ?thesis
    proof
      assume "(u, p) = (userID c, person c)"
      then show ?thesis using con [OF new] refs by auto
    next
      assume "\<exists>r. (k, r) \<in> set (rooms (server S)) \<and> (u, p) \<in> set (people r)"
      then obtain r where "(k, r) \<in> set (rooms (server S))" "(u, p) \<in> set (people r)"
        by blast
      from own [OF this] refs show ?thesis by auto
    qed
  qed
  have c': "owner (person c') = userID c' \<and> person c' < nextRef s'"
    if open_sock: "cn sock' = Some c'" for sock' c'
  proof -
    obtain c0 where "conns S sock' = Some c0" "userID c' = userID c0" "person c' = person c0"
      using conns [OF open_sock] by blast
    then show ?thesis using con [of sock' c0] refs by auto
  qed
  show ?thesis
  proof (rule people_okI [where owner = owner])
    show "distinct (map fst (people r))"
      if "(k, r) \<in> set (rooms (server \<lparr>server = s', conns = cn\<rparr>))" for k r
      using that d' by simp
    show "owner p = u \<and> p < nextRef (server \<lparr>server = s', conns = cn\<rparr>)"
      if "(k, r) \<in> set (rooms (server \<lparr>server = s', conns = cn\<rparr>))" "(u, p) \<in> set (people r)"
      for k r u p
      using that o' by simp
    show "owner (person c0) = userID c0 \<and>
        person c0 < nextRef (server \<lparr>server = s', conns = cn\<rparr>)"
      if "conns \<lparr>server = s', conns = cn\<rparr> sock0 = Some c0" for sock0 c0
      using that c' by simp
  qed
qed

lemma people_ok_connection:
  assumes ok: "people_ok S" and free: "conns S sock = None"
  shows "people_ok
     \<lparr>server = snd (on_connection uuid (server S)),
      conns = (conns S)(sock \<mapsto> fst (on_connection uuid (server S)))\<rparr>"
    (is "people_ok ?S'")
proof -
  obtain owner where
    dist: "\<And>k r. (k, r) \<in> set (rooms (server S)) \<Longrightarrow> distinct (map fst (people r))"
    and own: "\<And>k r u p. (k, r) \<in> set (rooms (server S)) \<Longrightarrow> (u, p) \<in> set (people r) \<Longrightarrow>
        owner p = u \<and> p < nextRef (server S)"
    and con: "\<And>sock' c'. conns S sock' = Some c' \<Longrightarrow>
        owner (person c') = userID c' \<and> person c' < nextRef (server S)"
    using ok unfolding people_ok_def by blast
  let ?n = "nextRef (server S)"
  let ?owner = "owner(?n := uuid)"
  have rooms': "rooms (server ?S') = rooms (server S)"
    and next': "nextRef (server ?S') = Suc ?n"
    and conns': "conns ?S' = (conns S)(sock \<mapsto> \<lparr>userID = uuid, roomID = [], person = ?n\<rparr>)"
    by (simp_all add: on_connection_def new_person_def)
  show ?thesis
  proof (rule people_okI [where owner = ?owner])
    fix k r
    assume "(k, r) \<in> set (rooms (server ?S'))"
    then show "distinct (map fst (people r))"
      unfolding rooms' by (rule dist)
  next
    fix k r u p
    assume "(k, r) \<in> set (rooms (server ?S'))" and "(u, p) \<in> set (people r)"
    then have "owner p = u \<and> p < ?n"
      unfolding rooms' by (rule own)
    then show "?owner p = u \<and> p < nextRef (server ?S')"
      unfolding next' by auto
  next
    fix sock' c'
    assume "conns ?S' sock' = Some c'"
    then have entry: "((conns S)(sock \<mapsto> \<lparr>userID = uuid, roomID = [], person = ?n\<rparr>)) sock'
        = Some c'"
      unfolding conns' .
    show "?owner (person c') = userID c' \<and> person c' < nextRef (server ?S')"
    proof (cases "sock' = sock")
      case True
      then show ?thesis using entry unfolding next' by auto
    next
      case False
      then have "conns S sock' = Some c'" using entry by simp
      from con [OF this] show ?thesis unfolding next' by auto
    qed
  qed
qed

lemma people_ok_interval:
  assumes ok: "people_ok S"
  shows "people_ok (S\<lparr>server := (server S)\<lparr>rooms := fst (interval_due h (rooms (server S)) hp),
                                          persons := hp'\<rparr>\<rparr>)"
    (is "people_ok ?S'")
proof -
  obtain owner where
    dist: "\<And>k r. (k, r) \<in> set (rooms (server S)) \<Longrightarrow> distinct (map fst (people r))"
    and own: "\<And>k r u p. (k, r) \<in> set (rooms (server S)) \<Longrightarrow> (u, p) \<in> set (people r) \<Longrightarrow>
        owner p = u \<and> p < nextRef (server S)"
    and con: "\<And>sock' c'. conns S sock' = Some c' \<Longrightarrow>
        owner (person c') = userID c' \<and> person c' < nextRef (server S)"
    using ok unfolding people_ok_def by blast
  have rooms': "rooms (server ?S') = fst (interval_due h (rooms (server S)) hp)"
    and next': "nextRef (server ?S') = nextRef (server S)"
    and conns': "conns ?S' = conns S"
    by simp_all
  have origin: "\<exists>r0. (k, r0) \<in> set (rooms (server S)) \<and> people r = people r0"
    if "(k, r) \<in> set (rooms (server ?S'))" for k r
    using interval_due_room [of k r h "rooms (server S)" hp] that unfolding rooms' by blast
  show ?thesis
  proof (rule people_okI [where owner = owner])
    fix k r
    assume "(k, r) \<in> set (rooms (server ?S'))"
    from origin [OF this] show "distinct (map fst (people r))"
      using dist by auto
  next
    fix k r u p
    assume "(k, r) \<in> set (rooms (server ?S'))" and entry: "(u, p) \<in> set (people r)"
    from origin [OF this(1)] obtain r0 where "(k, r0) \<in> set (rooms (server S))"
        "people r = people r0" by blast
    then show "owner p = u \<and> p < nextRef (server ?S')"
      using own [of k r0 u p] entry unfolding next' by simp
  next
    fix sock' c'
    assume "conns ?S' sock' = Some c'"
    then show "owner (person c') = userID c' \<and> person c' < nextRef (server ?S')"
      unfolding conns' next' by (rule con)
  qed
qed

lemma people_ok_step:
  assumes ok: "people_ok S" and res: "step g e S = Inr S'"
  shows "people_ok S'"
proof (cases e)
  case (Connection sock uuid)
  show ?thesis
  proof (cases "conns S sock")
    case None
    then have "S' = \<lparr>server = snd (on_connection uuid (server S)),
        conns = (conns S)(sock \<mapsto> fst (on_connection uuid (server S)))\<rparr>"
      using res Connection by (auto simp: split_def Let_def)
    then show ?thesis using people_ok_connection [OF ok None] by simp
  next
    case (Some c)
    then show ?thesis using res Connection ok by simp
  qed
next
  case (Message sock m)
  show ?thesis
  proof (cases "conns S sock")
    case None
    then show ?thesis using res Message ok by simp
  next
    case (Some c)
    obtain c1 s1 where h: "handle g m (c, server S) = Inr (c1, s1)"
      and S': "S' = \<lparr>server = s1,
          conns = (if m = Disconnect then (conns S)(sock := None) else (conns S)(sock \<mapsto> c1))\<rparr>"
      using res Message Some by (auto split: sum.splits prod.splits)
    note facts = handle_rooms [OF h]
    have "people_ok \<lparr>server = s1,
          conns = (if m = Disconnect then (conns S)(sock := None) else (conns S)(sock \<mapsto> c1))\<rparr>"
    proof (rule people_ok_transfer [OF ok Some])
      fix k r'
      assume "(k, r') \<in> set (rooms s1)"
      then show "people r' = [(userID c, person c)] \<or>
          (\<exists>r. (k, r) \<in> set (rooms (server S)) \<and> from_room [(userID c, person c)] r r')"
        using facts by blast
    next
      show "nextRef (server S) \<le> nextRef s1" using facts by blast
    next
      fix sock' c'
      assume "(if m = Disconnect then (conns S)(sock := None) else (conns S)(sock \<mapsto> c1)) sock'
          = Some c'"
      then show "\<exists>c0. conns S sock' = Some c0 \<and> userID c' = userID c0 \<and> person c' = person c0"
        using facts Some by (auto split: if_splits)
    qed
    then show ?thesis by (simp only: S')
  qed
next
  case (Interval h)
  show ?thesis
  proof (cases "h \<in> set (armed (timers (server S)))")
    case True
    then have "S' = S\<lparr>server := (server S)\<lparr>
          rooms := fst (interval_due h (rooms (server S)) (persons (server S))),
          persons := snd (interval_due h (rooms (server S)) (persons (server S)))\<rparr>\<rparr>"
      using res Interval by (auto simp: split_def Let_def)
    then show ?thesis using people_ok_interval [OF ok] by simp
  next
    case False
    then show ?thesis using res Interval ok by simp
  qed
qed

lemma people_ok_run: "people_ok S \<Longrightarrow> run g evs S = Inr S' \<Longrightarrow> people_ok S'"
proof (induction evs arbitrary: S)
  case Nil
  then show ?case by simp
next
  case (Cons e evs)
  then obtain S1 where 1: "step g e S = Inr S1" and 2: "run g evs S1 = Inr S'"
    by (auto split: sum.splits)
  have "people_ok S1" using Cons.prems(1) 1 by (rule people_ok_step)
  then show ?case using 2 by (rule Cons.IH)
qed

lemma people_ok_initial: "people_ok initial"
  by (simp add: people_ok_def initial_def)

lemma count_list_distinct: "distinct rs \<Longrightarrow> a \<in> set rs \<Longrightarrow> count_list rs a = 1"
  by (induction rs) auto

text \<open>
  In every state the server can be in, a Person object is among the values of a room's
  \<^verbatim>\<open>people\<close> at most once.
\<close>

lemma reachable_people_once:
  assumes reach: "run g evs initial = Inr S"
    and room: "(k, r) \<in> set (rooms (server S))"
    and entry: "(u, p) \<in> set (people r)"
  shows "count_list (map snd (people r)) p = 1"
proof -
  have "people_ok S" using people_ok_initial reach by (rule people_ok_run)
  then obtain owner where
    dist: "distinct (map fst (people r))"
    and own: "\<And>u' p'. (u', p') \<in> set (people r) \<Longrightarrow> owner p' = u'"
    using room unfolding people_ok_def by blast
  have "fst e = owner (snd e)" if "e \<in> set (people r)" for e
    using own [of "fst e" "snd e"] that by simp
  then have "map fst (people r) = map owner (map snd (people r))"
    by simp
  then have "distinct (map owner (map snd (people r)))" using dist by (simp only:)
  then have "distinct (map snd (people r))"
    using distinct_map [of owner "map snd (people r)"] by blast
  moreover have "p \<in> set (map snd (people r))" using entry by force
  ultimately show ?thesis by (rule count_list_distinct)
qed

end
